theory Spec2Isabelle
  imports Main
begin

section \<open>The hand-off plane: the \<open>request_queue\<close> table\<close>

text \<open>
  The article "Implementing a Distributed Lock State Machine" gives the table, the SQL
  statements the back-end issues against it and, in prose, the loop around them. The
  embedding follows the statements as they are written.

  \<^verbatim>\<open>request_status IN ('complete', 'error', 'in-progress', 'new')\<close> and
  \<^verbatim>\<open>request_type IN ('create', 'update')\<close> are the two check constraints.
\<close>

datatype request_status = New | InProgress | Complete | Error

datatype request_type = Create | Update

text \<open>
  One row of \<^verbatim>\<open>spreadsheets.request_queue\<close>, with the five columns of the printed
  \<^verbatim>\<open>CREATE TABLE\<close>; \<open>process_id\<close> is the one nullable column.
\<close>

record request =
  request_queue_id :: nat
  request_status :: request_status
  request_type :: request_type
  process_id :: "string option"
  spreadsheet_id :: string

text \<open>
  The database under commitment control. \<open>table\<close> holds the committed rows. A
  connection (a back-end process, numbered) that has executed \<^verbatim>\<open>BEGIN\<close> owns the row
  versions it has written and not yet committed (\<open>writes\<close>, newest first) and the row
  locks it has taken (\<open>locks\<close>). \<open>id_seq\<close> is the last value handed out by
  \<^verbatim>\<open>request_queue_id_seq\<close>.
\<close>

record database =
  table :: "request list"
  writes :: "(nat \<times> request) list"
  locks :: "(nat \<times> nat) list"
  id_seq :: nat

definition pending :: "nat \<Rightarrow> database \<Rightarrow> nat \<Rightarrow> request option" where
  "pending w db i =
     map_option snd (find (\<lambda>(w', r). w' = w \<and> request_queue_id r = i) (writes db))"

text \<open>What connection \<open>w\<close> reads: the committed rows, overlaid with its own changes.\<close>

definition view :: "nat \<Rightarrow> database \<Rightarrow> request list" where
  "view w db =
     map (\<lambda>r. case pending w db (request_queue_id r) of None \<Rightarrow> r | Some r' \<Rightarrow> r') (table db)"

definition locked_by_other :: "nat \<Rightarrow> database \<Rightarrow> nat \<Rightarrow> bool" where
  "locked_by_other w db i = list_ex (\<lambda>(w', j). w' \<noteq> w \<and> j = i) (locks db)"

definition lock_rows :: "nat \<Rightarrow> request list \<Rightarrow> database \<Rightarrow> database" where
  "lock_rows w rs db = db\<lparr>locks := map (\<lambda>r. (w, request_queue_id r)) rs @ locks db\<rparr>"

text \<open>A searched update of the rows \<open>rs\<close>: each is locked and gets a new version.\<close>

definition update_rows :: "nat \<Rightarrow> (request \<Rightarrow> request) \<Rightarrow> request list \<Rightarrow> database \<Rightarrow> database" where
  "update_rows w f rs db =
     (lock_rows w rs db)\<lparr>writes := map (\<lambda>r. (w, f r)) rs @ writes db\<rparr>"

text \<open>\<^verbatim>\<open>COMMIT\<close> makes the changes permanent, \<^verbatim>\<open>ROLLBACK\<close> undoes them; both release the locks.\<close>

definition release :: "nat \<Rightarrow> database \<Rightarrow> database" where
  "release w db =
     db\<lparr>writes := filter (\<lambda>(w', r). w' \<noteq> w) (writes db),
        locks := filter (\<lambda>(w', i). w' \<noteq> w) (locks db)\<rparr>"

definition commit :: "nat \<Rightarrow> database \<Rightarrow> database" where
  "commit w db = release w (db\<lparr>table := view w db\<rparr>)"

definition rollback :: "nat \<Rightarrow> database \<Rightarrow> database" where
  "rollback w db = release w db"

section \<open>Searching for work\<close>

text \<open>
  \<^verbatim>\<open>
  UPDATE spreadsheets.request_queue
  SET process_id = $1, request_status = 'in-progress'
  WHERE (request_queue_id) = (
    SELECT request_queue_id FROM spreadsheets.request_queue
    WHERE (request_status = 'new' AND request_queue_id > $2)
    ORDER BY request_queue_id
    FETCH FIRST ROW ONLY
    FOR UPDATE SKIP LOCKED)
  RETURNING request_queue_id, request_type, spreadsheet_id;
  \<close>
\<close>

definition eligible :: "nat \<Rightarrow> nat \<Rightarrow> database \<Rightarrow> request \<Rightarrow> bool" where
  "eligible w line db r \<longleftrightarrow>
     request_status r = New \<and> line < request_queue_id r
     \<and> \<not> locked_by_other w db (request_queue_id r)"

text \<open>\<^verbatim>\<open>ORDER BY request_queue_id FETCH FIRST ROW ONLY\<close>\<close>

fun first_row :: "request list \<Rightarrow> request option" where
  "first_row [] = None"
| "first_row (r # rs) =
     (case first_row rs of
        None \<Rightarrow> Some r
      | Some m \<Rightarrow> if request_queue_id r \<le> request_queue_id m then Some r else Some m)"

definition claim :: "string \<Rightarrow> request \<Rightarrow> request" where
  "claim pid r = r\<lparr>process_id := Some pid, request_status := InProgress\<rparr>"

definition search ::
  "nat \<Rightarrow> string \<Rightarrow> nat \<Rightarrow> database \<Rightarrow> (nat \<times> request_type \<times> string) option \<times> database" where
  "search w pid line db =
     (case first_row (filter (eligible w line db) (view w db)) of
        None \<Rightarrow> (None, db)
      | Some r \<Rightarrow>
          (Some (request_queue_id r, request_type r, spreadsheet_id r),
           update_rows w (claim pid)
             (filter (\<lambda>x. request_queue_id x = request_queue_id r) (view w db)) db))"

section \<open>Validation and grouping of \<open>update\<close> requests\<close>

text \<open>SQL state \<open>55P03\<close> (a row is locked to another process) and the unique index's violation.\<close>

datatype sql_error = Lock_not_available | Unique_violation

text \<open>
  \<^verbatim>\<open>
  SELECT true FROM spreadsheets.request_queue
  WHERE (spreadsheet_id = $1 AND request_type = 'create'
         AND request_status NOT IN ('complete', 'error'))
  FOR UPDATE NOWAIT;
  \<close>
  The statement throws when a selected row is locked to another process; otherwise it
  locks the selected rows and returns one \<open>true\<close> for each.
\<close>

definition create_outstanding :: "string \<Rightarrow> request \<Rightarrow> bool" where
  "create_outstanding s r \<longleftrightarrow>
     spreadsheet_id r = s \<and> request_type r = Create
     \<and> request_status r \<notin> {Complete, Error}"

definition validate :: "nat \<Rightarrow> string \<Rightarrow> database \<Rightarrow> sql_error + (bool list \<times> database)" where
  "validate w s db =
     (let rs = filter (create_outstanding s) (view w db)
      in if list_ex (\<lambda>r. locked_by_other w db (request_queue_id r)) rs
         then Inl Lock_not_available
         else Inr (map (\<lambda>r. True) rs, lock_rows w rs db))"

text \<open>
  \<^verbatim>\<open>
  UPDATE spreadsheets.request_queue
  SET processor_id = $1, request_status = 'in-progress'
  WHERE (request_queue_id IN (
    SELECT request_queue_id FROM spreadsheets.request_queue
    WHERE (spreadsheet_id = $2 AND request_type = 'update'
           AND request_status NOT IN ('complete', 'error'))
    FOR UPDATE NOWAIT));
  \<close>
  The statement names a column \<open>processor_id\<close>. The table has no column of that name: its
  one identity column is \<open>process_id\<close>, "the identity of the process responsible for
  implementing the request". The statement's own comment ("the same UUID assigned to the
  process") and the text on the final update ("will update all the request(s) that were
  previously locked to the process by the identity generated at run-time", "one or many
  \<open>update\<close> requests") describe the grouping as writing that identity, so \<open>allocate\<close>
  assigns \<open>process_id\<close>.
\<close>

definition update_outstanding :: "string \<Rightarrow> request \<Rightarrow> bool" where
  "update_outstanding s r \<longleftrightarrow>
     spreadsheet_id r = s \<and> request_type r = Update
     \<and> request_status r \<notin> {Complete, Error}"

definition allocate :: "string \<Rightarrow> request \<Rightarrow> request" where
  "allocate pid r = r\<lparr>process_id := Some pid, request_status := InProgress\<rparr>"

definition group_up :: "nat \<Rightarrow> string \<Rightarrow> string \<Rightarrow> database \<Rightarrow> sql_error + database" where
  "group_up w pid s db =
     (let rs = filter (update_outstanding s) (view w db)
      in if list_ex (\<lambda>r. locked_by_other w db (request_queue_id r)) rs
         then Inl Lock_not_available
         else Inr (update_rows w (allocate pid) rs db))"

section \<open>Progressing through the requests\<close>

text \<open>
  \<^verbatim>\<open>
  UPDATE spreadsheets.request_queue
  SET request_status = 'complete' -- or 'error', if there is one
  WHERE (process_id = $1);
  \<close>
  \<open>ok\<close> tells which of the two statuses is set. A plain update waits for a row that
  is locked to another process: it returns nothing (\<open>None\<close>) as long as that lock is
  held.
\<close>

definition settled :: "bool \<Rightarrow> request \<Rightarrow> request" where
  "settled ok r = r\<lparr>request_status := (if ok then Complete else Error)\<rparr>"

definition settle :: "nat \<Rightarrow> string \<Rightarrow> bool \<Rightarrow> database \<Rightarrow> database option" where
  "settle w pid ok db =
     (let rs = filter (\<lambda>r. process_id r = Some pid) (view w db)
      in if list_ex (\<lambda>r. locked_by_other w db (request_queue_id r)) rs
         then None
         else Some (update_rows w (settled ok) rs db))"

text \<open>
  One pass of the back-end over one request, as the article tells it: search; a
  \<open>create\<close> request proceeds; an \<open>update\<close> request is validated and grouped, and either
  statement throwing leads to \<^verbatim>\<open>ROLLBACK\<close> and the row being skipped; the spreadsheet is
  created or updated (\<open>work\<close>, the calls to the spreadsheet service, which may fail);
  the outcome is recorded and committed.

  The article tells what happens when the validating statement throws, and that the pass
  goes on when the \<open>create\<close> request is complete (the statement returns no row). What the
  back-end does with rows the statement returns is not shown: \<open>goes_on\<close> is that decision,
  a parameter; a pass that does not go on rolls back and skips the row, as after the
  exception.
\<close>

datatype outcome = NotFound | Processed nat | Skipped nat

definition finish ::
  "nat \<Rightarrow> string \<Rightarrow> bool \<Rightarrow> nat \<Rightarrow> database \<Rightarrow> (outcome \<times> database) option" where
  "finish w pid ok i db =
     (case settle w pid ok db of
        None \<Rightarrow> None
      | Some db' \<Rightarrow> Some (Processed i, commit w db'))"

definition attempt ::
  "nat \<Rightarrow> string \<Rightarrow> (request_type \<Rightarrow> string \<Rightarrow> bool) \<Rightarrow> (bool list \<Rightarrow> bool) \<Rightarrow> nat
     \<Rightarrow> database \<Rightarrow> (outcome \<times> database) option" where
  "attempt w pid work goes_on line db =
     (case search w pid line db of
        (None, db1) \<Rightarrow> Some (NotFound, db1)
      | (Some (i, Create, s), db1) \<Rightarrow> finish w pid (work Create s) i db1
      | (Some (i, Update, s), db1) \<Rightarrow>
          (case validate w s db1 of
             Inl e \<Rightarrow> Some (Skipped i, rollback w db1)
           | Inr (found, db2) \<Rightarrow>
               if found = [] \<or> goes_on found
               then (case group_up w pid s db2 of
                       Inl e \<Rightarrow> Some (Skipped i, rollback w db2)
                     | Inr db3 \<Rightarrow> finish w pid (work Update s) i db3)
               else Some (Skipped i, rollback w db2)))"

section \<open>The front-end: recording requests\<close>

text \<open>
  \<^verbatim>\<open>
  INSERT INTO spreadsheets.request_queue (request_type, spreadsheet_id) VALUES ($1, $2);
  \<close>
  The key defaults to the next value of the sequence, the status to \<open>new\<close>. The sparse
  unique index \<^verbatim>\<open>request_queue_01 (spreadsheet_id, request_type) WHERE request_type =
  'create'\<close> rejects the row when the table holds a \<open>create\<close> request of that spreadsheet.
  The sequence value drawn for the rejected row is not given back: the error comes with
  the database it leaves behind.
\<close>

definition has_create :: "string \<Rightarrow> database \<Rightarrow> bool" where
  "has_create s db =
     list_ex (\<lambda>r. spreadsheet_id r = s \<and> request_type r = Create) (table db)"

definition insert_request ::
  "request_type \<Rightarrow> string \<Rightarrow> database \<Rightarrow> (sql_error \<times> database) + database" where
  "insert_request t s db =
     (if t = Create \<and> has_create s db
      then Inl (Unique_violation, db\<lparr>id_seq := Suc (id_seq db)\<rparr>)
      else Inr (db\<lparr>table := table db @
                     [\<lparr>request_queue_id = Suc (id_seq db), request_status = New,
                       request_type = t, process_id = None, spreadsheet_id = s\<rparr>],
                   id_seq := Suc (id_seq db)\<rparr>))"

section \<open>Concurrent processes\<close>

text \<open>
  Any number of back-end processes and the front-end issue their statements against the
  one database, in any order. A statement of the back-end that throws, or has to wait,
  changes nothing; a rejected insert leaves its sequence value used.
  A process that dies has its uncommitted changes rolled back by the database manager:
  for the database this is the statement \<open>Rollback\<close>.
\<close>

datatype statement =
    Insert request_type string
  | Search nat string nat
  | Validate nat string
  | Group_up nat string string
  | Settle nat string bool
  | Commit nat
  | Rollback nat

fun execute :: "statement \<Rightarrow> database \<Rightarrow> database" where
  "execute (Insert t s) db =
     (case insert_request t s db of Inl (e, db') \<Rightarrow> db' | Inr db' \<Rightarrow> db')"
| "execute (Search w pid line) db = snd (search w pid line db)"
| "execute (Validate w s) db = (case validate w s db of Inl e \<Rightarrow> db | Inr (found, db') \<Rightarrow> db')"
| "execute (Group_up w pid s) db = (case group_up w pid s db of Inl e \<Rightarrow> db | Inr db' \<Rightarrow> db')"
| "execute (Settle w pid ok) db = (case settle w pid ok db of None \<Rightarrow> db | Some db' \<Rightarrow> db')"
| "execute (Commit w) db = commit w db"
| "execute (Rollback w) db = rollback w db"

fun run :: "statement list \<Rightarrow> database \<Rightarrow> database" where
  "run [] db = db"
| "run (st # sts) db = run sts (execute st db)"

definition empty_queue :: database where
  "empty_queue = \<lparr>table = [], writes = [], locks = [], id_seq = 0\<rparr>"

section \<open>The communication channel\<close>

text \<open>
  \<^verbatim>\<open>
  client.on('notification', async () => { ... });
  client.query('LISTEN spreadsheets_request_queue');
  client.query('NOTIFY spreadsheets_request_queue');   // prime the pump
  \<close>
  The channel is lossy: "only currently connected clients which are already listening
  for a message to appear on the topic will receive that notification". A connection
  records the channels it listens on and the notifications its event listener has
  received; \<open>issue\<close> is the effect on it of a \<^verbatim>\<open>LISTEN\<close> of its own and of a \<^verbatim>\<open>NOTIFY\<close>,
  its own or the front-end's.
\<close>

datatype command = Listen string | Notify string

record connection =
  listening :: "string list"
  notifications :: nat

fun issue :: "command \<Rightarrow> connection \<Rightarrow> connection" where
  "issue (Listen ch) c = c\<lparr>listening := ch # listening c\<rparr>"
| "issue (Notify ch) c =
     (if ch \<in> set (listening c) then c\<lparr>notifications := Suc (notifications c)\<rparr> else c)"

definition connected :: connection where
  "connected = \<lparr>listening = [], notifications = 0\<rparr>"

text \<open>What the back-end issues when it starts, in this order.\<close>

definition start_up :: "command list" where
  "start_up = [Listen ''spreadsheets_request_queue'', Notify ''spreadsheets_request_queue'']"

text \<open>Command \<open>a\<close> is issued at some point before command \<open>b\<close>.\<close>

fun issued_before :: "command \<Rightarrow> command \<Rightarrow> command list \<Rightarrow> bool" where
  "issued_before a b [] = False"
| "issued_before a b (c # cs) = ((c = a \<and> b \<in> set cs) \<or> issued_before a b cs)"

section \<open>Example queues\<close>

text \<open>Queues built by the front-end's inserts, used to run the statements on.\<close>

definition row ::
  "nat \<Rightarrow> request_status \<Rightarrow> request_type \<Rightarrow> string option \<Rightarrow> string \<Rightarrow> request" where
  "row i st t p s =
     \<lparr>request_queue_id = i, request_status = st, request_type = t, process_id = p,
      spreadsheet_id = s\<rparr>"

definition update_first_queue :: database where
  "update_first_queue = run [Insert Update ''A'', Insert Create ''A''] empty_queue"




text \<open>Two behaviours of the spreadsheet service, and the two a back-end can have on rows
  returned by the validating statement.\<close>

definition succeeds :: "request_type \<Rightarrow> string \<Rightarrow> bool" where
  "succeeds t s = True"



definition carries_on :: "bool list \<Rightarrow> bool" where
  "carries_on found = True"

definition gives_up :: "bool list \<Rightarrow> bool" where
  "gives_up found = False"


definition contended_queue :: database where
  "contended_queue =
     run [Insert Create ''A'', Insert Update ''A'', Insert Create ''B'', Search 2 ''q'' 0] empty_queue"

definition created_queue :: database where
  "created_queue =
     run [Insert Create ''A'', Search 1 ''p'' 0, Settle 1 ''p'' True, Commit 1] empty_queue"


lemmas statement_defs =
  insert_request_def has_create_def search_def validate_def group_up_def settle_def
  finish_def attempt_def commit_def rollback_def release_def update_rows_def lock_rows_def
  view_def pending_def eligible_def locked_by_other_def claim_def allocate_def settled_def
  create_outstanding_def update_outstanding_def empty_queue_def row_def

section \<open>Locks and consistency\<close>

text \<open>The processes that hold a lock on the row with key \<open>i\<close>.\<close>

definition holders :: "database \<Rightarrow> nat \<Rightarrow> nat list" where
  "holders db i = remdups (map fst (filter (\<lambda>(w, j). j = i) (locks db)))"

text \<open>
  What the database manager maintains: the primary key, the sequence, the exclusive row
  locks, and that an uncommitted row version belongs to a row of the table which its
  writer has locked. No statement of the back-end writes the status \<open>new\<close>.
\<close>

definition consistent :: "database \<Rightarrow> bool" where
  "consistent db \<longleftrightarrow>
     distinct (map request_queue_id (table db))
     \<and> (\<forall>r \<in> set (table db). request_queue_id r \<le> id_seq db)
     \<and> (\<forall>(w1, i1) \<in> set (locks db). \<forall>(w2, i2) \<in> set (locks db). i1 = i2 \<longrightarrow> w1 = w2)
     \<and> (\<forall>(w, r) \<in> set (writes db).
           (w, request_queue_id r) \<in> set (locks db) \<and> request_status r \<noteq> New
           \<and> (\<exists>t \<in> set (table db). request_queue_id t = request_queue_id r
                 \<and> request_type t = request_type r \<and> spreadsheet_id t = spreadsheet_id r))"


section \<open>Status changes\<close>

text \<open>The status changes between two versions of the rows, taken row by row.\<close>

definition changes :: "request list \<Rightarrow> request list \<Rightarrow> (request_status \<times> request_status) list" where
  "changes xs ys =
     filter (\<lambda>(a, b). a \<noteq> b) (zip (map request_status xs) (map request_status ys))"

section \<open>Basic facts about rows, views and locks\<close>

lemma first_row_None: "first_row rs = None \<longleftrightarrow> rs = []"
  by (induction rs) (auto split: option.splits)

lemma first_row_Some:
  "first_row rs = Some r \<Longrightarrow> r \<in> set rs \<and> (\<forall>x \<in> set rs. request_queue_id r \<le> request_queue_id x)"
proof (induction rs arbitrary: r)
  case Nil
  then show ?case by simp
next
  case (Cons a rs)
  show ?case
  proof (cases "first_row rs")
    case None
    with Cons.prems show ?thesis by (simp add: first_row_None)
  next
    case (Some m)
    with Cons.IH[OF Some] Cons.prems show ?thesis
      by (auto split: if_splits)
  qed
qed

lemma overlay_id:
  "request_queue_id (case pending w db (request_queue_id r) of None \<Rightarrow> r | Some r' \<Rightarrow> r')
     = request_queue_id r"
  by (auto simp: pending_def find_Some_iff split: option.splits)

lemma view_ids: "map request_queue_id (view w db) = map request_queue_id (table db)"
  by (simp add: view_def overlay_id)

lemma filter_key_single:
  "distinct (map request_queue_id xs) \<Longrightarrow> r \<in> set xs
     \<Longrightarrow> filter (\<lambda>x. request_queue_id x = request_queue_id r) xs = [r]"
proof (induction xs)
  case Nil
  then show ?case by simp
next
  case (Cons a xs)
  then show ?case
    by (auto simp: filter_empty_conv image_iff)
qed

lemma key_unique:
  "distinct (map request_queue_id xs) \<Longrightarrow> r \<in> set xs \<Longrightarrow> x \<in> set xs
     \<Longrightarrow> request_queue_id x = request_queue_id r \<Longrightarrow> x = r"
  by (meson distinct_map inj_onD)

lemma pending_update_rows:
  "pending w' (update_rows w f rs db) i =
     (if w' = w then
        (case find (\<lambda>r. request_queue_id (f r) = i) rs of
           Some r \<Rightarrow> Some (f r) | None \<Rightarrow> pending w db i)
      else pending w' db i)"
  by (induction rs) (auto simp: pending_def update_rows_def lock_rows_def)

lemma table_update_rows [simp]: "table (update_rows w f rs db) = table db"
  by (simp add: update_rows_def lock_rows_def)

lemma locks_update_rows [simp]:
  "locks (update_rows w f rs db) = map (\<lambda>r. (w, request_queue_id r)) rs @ locks db"
  by (simp add: update_rows_def lock_rows_def)

lemma view_update_other: "w' \<noteq> w \<Longrightarrow> view w' (update_rows w f rs db) = view w' db"
  by (simp add: view_def pending_update_rows)

lemma claim_id [simp]: "request_queue_id (claim pid r) = request_queue_id r"
  by (simp add: claim_def)

lemma view_search:
  assumes d: "distinct (map request_queue_id (table db))" and r: "r \<in> set (view w db)"
  shows "view w (update_rows w (claim pid) [r] db)
           = map (\<lambda>x. if request_queue_id x = request_queue_id r then claim pid x else x) (view w db)"
proof -
  have dv: "distinct (map request_queue_id (view w db))" using d by (simp add: view_ids)
  have "\<And>t. t \<in> set (table db) \<Longrightarrow>
     (case pending w (update_rows w (claim pid) [r] db) (request_queue_id t) of None \<Rightarrow> t | Some r' \<Rightarrow> r')
     = (let x = (case pending w db (request_queue_id t) of None \<Rightarrow> t | Some r' \<Rightarrow> r')
        in if request_queue_id x = request_queue_id r then claim pid x else x)"
  proof -
    fix t assume t: "t \<in> set (table db)"
    let ?x = "case pending w db (request_queue_id t) of None \<Rightarrow> t | Some r' \<Rightarrow> r'"
    have xin: "?x \<in> set (view w db)" using t by (auto simp: view_def)
    have xid: "request_queue_id ?x = request_queue_id t" by (rule overlay_id)
    show "(case pending w (update_rows w (claim pid) [r] db) (request_queue_id t) of None \<Rightarrow> t | Some r' \<Rightarrow> r')
     = (let x = ?x in if request_queue_id x = request_queue_id r then claim pid x else x)"
    proof (cases "request_queue_id t = request_queue_id r")
      case True
      then have "?x = r" using key_unique[OF dv r xin] xid by simp
      then show ?thesis using True xid by (simp add: pending_update_rows Let_def)
    next
      case False
      then show ?thesis using xid by (simp add: pending_update_rows Let_def)
    qed
  qed
  then show ?thesis by (simp add: view_def Let_def)
qed


lemma table_lock_rows [simp]: "table (lock_rows w rs db) = table db"
  by (simp add: lock_rows_def)

lemma table_release [simp]: "table (release w db) = table db"
  by (simp add: release_def)

lemma table_rollback [simp]: "table (rollback w db) = table db"
  by (simp add: rollback_def)

lemma table_commit [simp]: "table (commit w db) = view w db"
  by (simp add: commit_def)

lemma search_Some:
  assumes "search w pid line db = (Some (i, t, s), db1)"
  shows "line < i \<and> i \<in> set (map request_queue_id (table db)) \<and> table db1 = table db"
proof -
  from assms obtain r where r: "first_row (filter (eligible w line db) (view w db)) = Some r"
    and i: "i = request_queue_id r"
    and db1: "db1 = update_rows w (claim pid)
             (filter (\<lambda>x. request_queue_id x = request_queue_id r) (view w db)) db"
    by (auto simp: search_def split: option.splits)
  from first_row_Some[OF r] have "r \<in> set (view w db)" "eligible w line db r" by auto
  then have "line < i" "i \<in> set (map request_queue_id (view w db))"
    using i by (auto simp: eligible_def)
  then show ?thesis using db1 by (simp add: view_ids)
qed


lemma validate_table: "validate w s db = Inr (found, db') \<Longrightarrow> table db' = table db"
  by (auto simp: validate_def Let_def split: if_splits)

lemma group_up_table: "group_up w pid s db = Inr db' \<Longrightarrow> table db' = table db"
  by (auto simp: group_up_def Let_def split: if_splits)

lemma settle_table: "settle w pid ok db = Some db' \<Longrightarrow> table db' = table db"
  by (auto simp: settle_def Let_def split: if_splits)

lemma finish_ids:
  "finish w pid ok i db = Some (out, db')
     \<Longrightarrow> out = Processed i \<and> map request_queue_id (table db') = map request_queue_id (table db)"
  by (auto simp: finish_def view_ids split: option.splits dest!: settle_table)




lemma contended_queue_eq: "contended_queue = \<lparr>table =
     [\<lparr>request_queue_id = 1, request_status = New, request_type = Create,
         process_id = None, spreadsheet_id = ''A''\<rparr>,
      \<lparr>request_queue_id = 2, request_status = New, request_type = Update,
         process_id = None, spreadsheet_id = ''A''\<rparr>,
      \<lparr>request_queue_id = 3, request_status = New, request_type = Create,
         process_id = None, spreadsheet_id = ''B''\<rparr>],
     writes = [(2, \<lparr>request_queue_id = 1, request_status = InProgress, request_type = Create,
         process_id = Some ''q'', spreadsheet_id = ''A''\<rparr>)],
     locks = [(2, 1)], id_seq = 3\<rparr>"
  by (simp add: contended_queue_def empty_queue_def insert_request_def has_create_def
      search_def view_def pending_def eligible_def locked_by_other_def update_rows_def lock_rows_def claim_def)

lemma update_first_queue_eq:
  "update_first_queue =
     \<lparr>table = [row 1 New Update None ''A'', row 2 New Create None ''A''],
      writes = [], locks = [], id_seq = 2\<rparr>"
  by (simp add: update_first_queue_def statement_defs)




lemma created_queue_eq:
  "created_queue =
     \<lparr>table = [row 1 Complete Create (Some ''p'') ''A''], writes = [], locks = [],
      id_seq = 1\<rparr>"
  by (simp add: created_queue_def statement_defs)


section \<open>Turns through the table\<close>

text \<open>
  One turn: the back-end "iterates through the data by beginning again with a search for
  the first outstanding \<open>new\<close> request but this time the search begins after the
  \<open>request_queue_id\<close> found previously", whether that request was processed or skipped,
  "until no more rows are returned by the search". Every step moves the line-in-the-sand
  to a larger key of the table, so a turn ends.

  The process identifier is "a UUID, generated at run-time for each request being
  processed"; the article also has it generated when the back-end is awakened. \<open>uuid\<close>
  is the supply of identifiers and \<open>k\<close> counts the passes the process has begun: pass
  \<open>k\<close> runs under \<open>uuid k\<close>. A supply that never repeats a value is the first reading, a
  constant one the second.

  The turn keeps a journal: for every pass the line-in-the-sand it searched from and
  what came of it. The journal has no influence on the passes.
\<close>

type_synonym journal = "(nat \<times> outcome) list"



text \<open>The requests processed in a turn, by its journal.\<close>

fun worked :: "nat \<times> outcome \<Rightarrow> bool" where
  "worked (line, Processed i) = True"
| "worked (line, NotFound) = False"
| "worked (line, Skipped i) = False"

definition processed :: "journal \<Rightarrow> journal" where
  "processed log = filter worked log"








lemma processed_append [simp]: "processed (xs @ ys) = processed xs @ processed ys"
  by (simp add: processed_def)

lemma processed_simps [simp]:
  "processed [] = []"
  "processed ((l, NotFound) # xs) = processed xs"
  "processed ((l, Skipped i) # xs) = processed xs"
  "processed ((l, Processed i) # xs) = (l, Processed i) # processed xs"
  by (simp_all add: processed_def)









section \<open>How a turn ends and when the back-end goes idle\<close>







section \<open>Every statement keeps the database consistent\<close>

lemma pending_Some:
  "pending w db i = Some r \<Longrightarrow> (w, r) \<in> set (writes db) \<and> request_queue_id r = i"
  by (auto simp: pending_def find_Some_iff in_set_conv_nth)

lemma pending_None:
  "pending w db i = None \<Longrightarrow> (w, r) \<in> set (writes db) \<Longrightarrow> request_queue_id r \<noteq> i"
  by (auto simp: pending_def find_None_iff)

lemma view_row:
  assumes "r \<in> set (view w db)"
  shows "\<exists>t \<in> set (table db). request_queue_id t = request_queue_id r
           \<and> ((pending w db (request_queue_id t) = None \<and> r = t)
               \<or> (pending w db (request_queue_id t) = Some r \<and> (w, r) \<in> set (writes db)))"
proof -
  from assms obtain t where t: "t \<in> set (table db)"
    and r: "r = (case pending w db (request_queue_id t) of None \<Rightarrow> t | Some r' \<Rightarrow> r')"
    by (auto simp: view_def)
  show ?thesis
  proof (cases "pending w db (request_queue_id t)")
    case None
    with t r show ?thesis by auto
  next
    case (Some r')
    with t r pending_Some[OF Some] show ?thesis by auto
  qed
qed

lemma locked_by_other_iff:
  "locked_by_other w db i \<longleftrightarrow> (\<exists>w'. w' \<noteq> w \<and> (w', i) \<in> set (locks db))"
  by (auto simp: locked_by_other_def list_ex_iff)


lemma consistentI:
  assumes "distinct (map request_queue_id (table db))"
    and "\<And>r. r \<in> set (table db) \<Longrightarrow> request_queue_id r \<le> id_seq db"
    and "\<And>w1 w2 i. (w1, i) \<in> set (locks db) \<Longrightarrow> (w2, i) \<in> set (locks db) \<Longrightarrow> w1 = w2"
    and "\<And>w r. (w, r) \<in> set (writes db) \<Longrightarrow> (w, request_queue_id r) \<in> set (locks db)"
    and "\<And>w r. (w, r) \<in> set (writes db) \<Longrightarrow> request_status r \<noteq> New"
    and "\<And>w r. (w, r) \<in> set (writes db) \<Longrightarrow>
           \<exists>t \<in> set (table db). request_queue_id t = request_queue_id r
                 \<and> request_type t = request_type r \<and> spreadsheet_id t = spreadsheet_id r"
  shows "consistent db"
  unfolding consistent_def
proof (intro conjI ballI)
  show "distinct (map request_queue_id (table db))" by (rule assms(1))
next
  fix r assume "r \<in> set (table db)"
  then show "request_queue_id r \<le> id_seq db" by (rule assms(2))
next
  fix x assume "x \<in> set (locks db)"
  then show "case x of (w1, i1) \<Rightarrow> \<forall>(w2, i2) \<in> set (locks db). i1 = i2 \<longrightarrow> w1 = w2"
    using assms(3) by (cases x) auto
next
  fix x assume x: "x \<in> set (writes db)"
  obtain w r where xe: "x = (w, r)" by (cases x)
  from assms(4)[of w r] assms(5)[of w r] assms(6)[of w r] x
  show "case x of (w, r) \<Rightarrow>
           (w, request_queue_id r) \<in> set (locks db) \<and> request_status r \<noteq> New
           \<and> (\<exists>t \<in> set (table db). request_queue_id t = request_queue_id r
                 \<and> request_type t = request_type r \<and> spreadsheet_id t = spreadsheet_id r)"
    unfolding xe by simp
qed

lemma consistent_keys: "consistent db \<Longrightarrow> distinct (map request_queue_id (table db))"
  by (simp add: consistent_def)

lemma consistent_seq: "consistent db \<Longrightarrow> r \<in> set (table db) \<Longrightarrow> request_queue_id r \<le> id_seq db"
  by (simp add: consistent_def)

lemma consistent_excl:
  "consistent db \<Longrightarrow> (w1, i) \<in> set (locks db) \<Longrightarrow> (w2, i) \<in> set (locks db) \<Longrightarrow> w1 = w2"
  unfolding consistent_def by fast

lemma consistent_write_locked:
  "consistent db \<Longrightarrow> (w, r) \<in> set (writes db) \<Longrightarrow> (w, request_queue_id r) \<in> set (locks db)"
  unfolding consistent_def by fast

lemma consistent_write_status:
  "consistent db \<Longrightarrow> (w, r) \<in> set (writes db) \<Longrightarrow> request_status r \<noteq> New"
  unfolding consistent_def by fast

lemma consistent_write_row:
  "consistent db \<Longrightarrow> (w, r) \<in> set (writes db) \<Longrightarrow>
     \<exists>t \<in> set (table db). request_queue_id t = request_queue_id r
           \<and> request_type t = request_type r \<and> spreadsheet_id t = spreadsheet_id r"
  unfolding consistent_def by fast

lemma consistent_empty: "consistent empty_queue"
  by (simp add: consistent_def empty_queue_def)

lemma set_locks_lock_rows:
  "set (locks (lock_rows w rs db)) = (\<lambda>r. (w, request_queue_id r)) ` set rs \<union> set (locks db)"
  by (simp add: lock_rows_def)

lemma writes_lock_rows [simp]: "writes (lock_rows w rs db) = writes db"
  by (simp add: lock_rows_def)

lemma id_seq_lock_rows [simp]: "id_seq (lock_rows w rs db) = id_seq db"
  by (simp add: lock_rows_def)

lemma consistent_lock_rows:
  assumes c: "consistent db" and free: "\<forall>r \<in> set rs. \<not> locked_by_other w db (request_queue_id r)"
  shows "consistent (lock_rows w rs db)"
proof (rule consistentI)
  show "distinct (map request_queue_id (table (lock_rows w rs db)))"
    using consistent_keys[OF c] by simp
next
  fix r assume "r \<in> set (table (lock_rows w rs db))"
  then show "request_queue_id r \<le> id_seq (lock_rows w rs db)"
    using consistent_seq[OF c] by simp
next
  fix w1 w2 i
  assume a: "(w1, i) \<in> set (locks (lock_rows w rs db))" "(w2, i) \<in> set (locks (lock_rows w rs db))"
  have new: "\<And>w'. (w', i) \<in> (\<lambda>r. (w, request_queue_id r)) ` set rs \<Longrightarrow>
                 w' = w \<and> (\<forall>w''. (w'', i) \<in> set (locks db) \<longrightarrow> w'' = w)"
    using free by (auto simp: locked_by_other_iff)
  from a show "w1 = w2"
    unfolding set_locks_lock_rows using new consistent_excl[OF c] by (metis Un_iff)
next
  fix w' r assume "(w', r) \<in> set (writes (lock_rows w rs db))"
  then have wr: "(w', r) \<in> set (writes db)" by simp
  from consistent_write_locked[OF c wr]
  show "(w', request_queue_id r) \<in> set (locks (lock_rows w rs db))"
    by (simp add: set_locks_lock_rows)
  from consistent_write_status[OF c wr] show "request_status r \<noteq> New" .
  from consistent_write_row[OF c wr]
  show "\<exists>t \<in> set (table (lock_rows w rs db)). request_queue_id t = request_queue_id r
           \<and> request_type t = request_type r \<and> spreadsheet_id t = spreadsheet_id r" by simp
qed

lemma view_row_table:
  assumes c: "consistent db" and r: "r \<in> set (view w db)"
  shows "\<exists>t \<in> set (table db). request_queue_id t = request_queue_id r
           \<and> request_type t = request_type r \<and> spreadsheet_id t = spreadsheet_id r"
proof -
  from view_row[OF r] obtain t where t: "t \<in> set (table db)"
    "request_queue_id t = request_queue_id r" "r = t \<or> (w, r) \<in> set (writes db)" by auto
  from t(3) show ?thesis
  proof
    assume "r = t" with t show ?thesis by auto
  next
    assume "(w, r) \<in> set (writes db)"
    from consistent_write_row[OF c this] show ?thesis .
  qed
qed

lemma set_writes_update_rows:
  "set (writes (update_rows w f rs db)) = (\<lambda>r. (w, f r)) ` set rs \<union> set (writes db)"
  by (simp add: update_rows_def lock_rows_def)

lemma set_locks_update_rows:
  "set (locks (update_rows w f rs db)) = (\<lambda>r. (w, request_queue_id r)) ` set rs \<union> set (locks db)"
  by (simp add: update_rows_def lock_rows_def)

lemma id_seq_update_rows [simp]: "id_seq (update_rows w f rs db) = id_seq db"
  by (simp add: update_rows_def lock_rows_def)

lemma consistent_update_rows:
  assumes c: "consistent db" and sub: "set rs \<subseteq> set (view w db)"
    and free: "\<forall>r \<in> set rs. \<not> locked_by_other w db (request_queue_id r)"
    and f: "\<And>r. request_queue_id (f r) = request_queue_id r \<and> request_type (f r) = request_type r
               \<and> spreadsheet_id (f r) = spreadsheet_id r \<and> request_status (f r) \<noteq> New"
  shows "consistent (update_rows w f rs db)"
proof (rule consistentI)
  show "distinct (map request_queue_id (table (update_rows w f rs db)))"
    using consistent_keys[OF c] by simp
next
  fix r assume "r \<in> set (table (update_rows w f rs db))"
  then show "request_queue_id r \<le> id_seq (update_rows w f rs db)"
    using consistent_seq[OF c] by simp
next
  fix w1 w2 i
  assume a: "(w1, i) \<in> set (locks (update_rows w f rs db))"
    "(w2, i) \<in> set (locks (update_rows w f rs db))"
  have "locks (update_rows w f rs db) = locks (lock_rows w rs db)"
    by (simp add: lock_rows_def)
  with a consistent_excl[OF consistent_lock_rows[OF c free]] show "w1 = w2" by metis
next
  fix w' r assume wr: "(w', r) \<in> set (writes (update_rows w f rs db))"
  then consider (new) r0 where "r0 \<in> set rs" "w' = w" "r = f r0" | (old) "(w', r) \<in> set (writes db)"
    unfolding set_writes_update_rows by auto
  note cs = this
  show "(w', request_queue_id r) \<in> set (locks (update_rows w f rs db))"
  proof (cases rule: cs)
    case new
    then show ?thesis unfolding set_locks_update_rows using f by auto
  next
    case old
    from consistent_write_locked[OF c old] show ?thesis unfolding set_locks_update_rows by simp
  qed
  show "request_status r \<noteq> New"
  proof (cases rule: cs)
    case new
    then show ?thesis using f by simp
  next
    case old
    from consistent_write_status[OF c old] show ?thesis .
  qed
  show "\<exists>t \<in> set (table (update_rows w f rs db)). request_queue_id t = request_queue_id r
           \<and> request_type t = request_type r \<and> spreadsheet_id t = spreadsheet_id r"
  proof (cases rule: cs)
    case new
    then have "r0 \<in> set (view w db)" using sub by auto
    from view_row_table[OF c this] new f show ?thesis by simp
  next
    case old
    from consistent_write_row[OF c old] show ?thesis by simp
  qed
qed

lemma set_writes_release:
  "set (writes (release w db)) = {(w', r). (w', r) \<in> set (writes db) \<and> w' \<noteq> w}"
  by (auto simp: release_def)

lemma set_locks_release:
  "set (locks (release w db)) = {(w', i). (w', i) \<in> set (locks db) \<and> w' \<noteq> w}"
  by (auto simp: release_def)

lemma id_seq_release [simp]: "id_seq (release w db) = id_seq db"
  by (simp add: release_def)

lemma consistent_release:
  assumes c: "consistent db" shows "consistent (release w db)"
proof (rule consistentI)
  show "distinct (map request_queue_id (table (release w db)))"
    using consistent_keys[OF c] by simp
next
  fix r assume "r \<in> set (table (release w db))"
  then show "request_queue_id r \<le> id_seq (release w db)"
    using consistent_seq[OF c] by simp
next
  fix w1 w2 i
  assume "(w1, i) \<in> set (locks (release w db))" "(w2, i) \<in> set (locks (release w db))"
  then show "w1 = w2" using consistent_excl[OF c] by (auto simp: set_locks_release)
next
  fix w' r assume "(w', r) \<in> set (writes (release w db))"
  then have wr: "(w', r) \<in> set (writes db)" and ne: "w' \<noteq> w"
    by (auto simp: set_writes_release)
  from consistent_write_locked[OF c wr] ne
  show "(w', request_queue_id r) \<in> set (locks (release w db))"
    by (simp add: set_locks_release)
  from consistent_write_status[OF c wr] show "request_status r \<noteq> New" .
  from consistent_write_row[OF c wr]
  show "\<exists>t \<in> set (table (release w db)). request_queue_id t = request_queue_id r
           \<and> request_type t = request_type r \<and> spreadsheet_id t = spreadsheet_id r" by simp
qed

lemma consistent_rollback: "consistent db \<Longrightarrow> consistent (rollback w db)"
  by (simp add: rollback_def consistent_release)

lemma view_covers:
  assumes c: "consistent db" and t: "t \<in> set (table db)"
  shows "\<exists>x \<in> set (view w db). request_queue_id x = request_queue_id t
           \<and> request_type x = request_type t \<and> spreadsheet_id x = spreadsheet_id t"
proof (cases "pending w db (request_queue_id t)")
  case None
  then have "t \<in> set (view w db)" using t by (force simp: view_def)
  then show ?thesis by auto
next
  case (Some r)
  from pending_Some[OF Some] have wr: "(w, r) \<in> set (writes db)"
    "request_queue_id r = request_queue_id t" by auto
  from consistent_write_row[OF c wr(1)] obtain t' where t': "t' \<in> set (table db)"
    "request_queue_id t' = request_queue_id r" "request_type t' = request_type r"
    "spreadsheet_id t' = spreadsheet_id r" by auto
  from key_unique[OF consistent_keys[OF c] t t'(1)] t'(2) wr(2) have "t' = t" by simp
  moreover have "r \<in> set (view w db)" using t Some by (force simp: view_def)
  ultimately show ?thesis using t' wr by auto
qed

lemma consistent_publish:
  assumes c: "consistent db"
  shows "consistent (db\<lparr>table := view w db\<rparr>)"
proof (rule consistentI)
  show "distinct (map request_queue_id (table (db\<lparr>table := view w db\<rparr>)))"
    using consistent_keys[OF c] by (simp add: view_ids)
next
  fix r assume "r \<in> set (table (db\<lparr>table := view w db\<rparr>))"
  then have "r \<in> set (view w db)" by simp
  from view_row[OF this] obtain t where "t \<in> set (table db)"
    "request_queue_id t = request_queue_id r" by auto
  with consistent_seq[OF c, of t]
  show "request_queue_id r \<le> id_seq (db\<lparr>table := view w db\<rparr>)" by simp
next
  fix w1 w2 i
  assume "(w1, i) \<in> set (locks (db\<lparr>table := view w db\<rparr>))" "(w2, i) \<in> set (locks (db\<lparr>table := view w db\<rparr>))"
  then show "w1 = w2" using consistent_excl[OF c] by simp
next
  fix w' r assume "(w', r) \<in> set (writes (db\<lparr>table := view w db\<rparr>))"
  then have wr: "(w', r) \<in> set (writes db)" by simp
  from consistent_write_locked[OF c wr]
  show "(w', request_queue_id r) \<in> set (locks (db\<lparr>table := view w db\<rparr>))" by simp
  from consistent_write_status[OF c wr] show "request_status r \<noteq> New" .
  from consistent_write_row[OF c wr] obtain t where t: "t \<in> set (table db)"
    "request_queue_id t = request_queue_id r" "request_type t = request_type r"
    "spreadsheet_id t = spreadsheet_id r" by auto
  from view_covers[OF c t(1), of w] t
  show "\<exists>t \<in> set (table (db\<lparr>table := view w db\<rparr>)). request_queue_id t = request_queue_id r
           \<and> request_type t = request_type r \<and> spreadsheet_id t = spreadsheet_id r" by auto
qed

lemma consistent_commit: "consistent db \<Longrightarrow> consistent (commit w db)"
  by (simp add: commit_def consistent_release consistent_publish)

lemma insert_request_Inr:
  "insert_request t s db = Inr db' \<Longrightarrow>
     table db' = table db @ [\<lparr>request_queue_id = Suc (id_seq db), request_status = New,
                       request_type = t, process_id = None,
                       spreadsheet_id = s\<rparr>]
     \<and> id_seq db' = Suc (id_seq db) \<and> writes db' = writes db \<and> locks db' = locks db"
  by (auto simp: insert_request_def split: if_splits)

lemma insert_request_Inl:
  "insert_request t s db = Inl (e, db') \<Longrightarrow>
     e = Unique_violation \<and> table db' = table db \<and> id_seq db' = Suc (id_seq db)
     \<and> writes db' = writes db \<and> locks db' = locks db"
  by (auto simp: insert_request_def split: if_splits)

lemma consistent_rejected:
  assumes c: "consistent db" and i: "insert_request t s db = Inl (e, db')"
  shows "consistent db'"
proof (rule consistentI)
  note e = insert_request_Inl[OF i]
  show "distinct (map request_queue_id (table db'))"
    using consistent_keys[OF c] e by simp
  show "\<And>r. r \<in> set (table db') \<Longrightarrow> request_queue_id r \<le> id_seq db'"
    using consistent_seq[OF c] e by force
  show "\<And>w1 w2 i. (w1, i) \<in> set (locks db') \<Longrightarrow> (w2, i) \<in> set (locks db') \<Longrightarrow> w1 = w2"
    using consistent_excl[OF c] e by simp
  show "\<And>w r. (w, r) \<in> set (writes db') \<Longrightarrow> (w, request_queue_id r) \<in> set (locks db')"
    using consistent_write_locked[OF c] e by simp
  show "\<And>w r. (w, r) \<in> set (writes db') \<Longrightarrow> request_status r \<noteq> New"
    using consistent_write_status[OF c] e by simp
  show "\<And>w r. (w, r) \<in> set (writes db') \<Longrightarrow>
           \<exists>t \<in> set (table db'). request_queue_id t = request_queue_id r
                 \<and> request_type t = request_type r \<and> spreadsheet_id t = spreadsheet_id r"
    using consistent_write_row[OF c] e by simp
qed

lemma consistent_insert:
  assumes c: "consistent db" and i: "insert_request t s db = Inr db'"
  shows "consistent db'"
proof (rule consistentI)
  note e = insert_request_Inr[OF i]
  have "Suc (id_seq db) \<notin> request_queue_id ` set (table db)"
    using consistent_seq[OF c] by force
  then show "distinct (map request_queue_id (table db'))"
    using consistent_keys[OF c] e by simp
  show "\<And>r. r \<in> set (table db') \<Longrightarrow> request_queue_id r \<le> id_seq db'"
    using consistent_seq[OF c] e by force
  show "\<And>w1 w2 i. (w1, i) \<in> set (locks db') \<Longrightarrow> (w2, i) \<in> set (locks db') \<Longrightarrow> w1 = w2"
    using consistent_excl[OF c] e by simp
  show "\<And>w r. (w, r) \<in> set (writes db') \<Longrightarrow> (w, request_queue_id r) \<in> set (locks db')"
    using consistent_write_locked[OF c] e by simp
  show "\<And>w r. (w, r) \<in> set (writes db') \<Longrightarrow> request_status r \<noteq> New"
    using consistent_write_status[OF c] e by simp
  show "\<And>w r. (w, r) \<in> set (writes db') \<Longrightarrow>
           \<exists>t \<in> set (table db'). request_queue_id t = request_queue_id r
                 \<and> request_type t = request_type r \<and> spreadsheet_id t = spreadsheet_id r"
  proof -
    fix w r assume "(w, r) \<in> set (writes db')"
    then have "(w, r) \<in> set (writes db)" using e by simp
    from consistent_write_row[OF c this] e
    show "\<exists>t \<in> set (table db'). request_queue_id t = request_queue_id r
                 \<and> request_type t = request_type r \<and> spreadsheet_id t = spreadsheet_id r"
      by auto
  qed
qed

lemma first_row_eligible:
  "first_row (filter (eligible w line db) (view w db)) = Some r
     \<Longrightarrow> r \<in> set (view w db) \<and> eligible w line db r"
  by (drule first_row_Some) auto

lemma consistent_search: 
  assumes "consistent db" shows "consistent (snd (search w pid line db))"
proof (cases "first_row (filter (eligible w line db) (view w db))")
  case None
  with assms show ?thesis by (simp add: search_def)
next
  case (Some r)
  from first_row_eligible[OF Some] have r: "r \<in> set (view w db)" "eligible w line db r" by auto
  have "consistent (update_rows w (claim pid)
             (filter (\<lambda>x. request_queue_id x = request_queue_id r) (view w db)) db)"
    using r by (intro consistent_update_rows[OF assms]) (auto simp: eligible_def claim_def)
  with Some show ?thesis by (simp add: search_def)
qed

lemma consistent_validate:
  "consistent db \<Longrightarrow> validate w s db = Inr (found, db') \<Longrightarrow> consistent db'"
  by (auto simp: validate_def Let_def list_ex_iff split: if_splits intro!: consistent_lock_rows)

lemma consistent_group_up:
  "consistent db \<Longrightarrow> group_up w pid s db = Inr db' \<Longrightarrow> consistent db'"
  by (auto simp: group_up_def Let_def list_ex_iff allocate_def split: if_splits
           intro!: consistent_update_rows)

lemma consistent_settle:
  "consistent db \<Longrightarrow> settle w pid ok db = Some db' \<Longrightarrow> consistent db'"
  by (auto simp: settle_def Let_def list_ex_iff settled_def split: if_splits
           intro!: consistent_update_rows)

lemma consistent_execute: "consistent db \<Longrightarrow> consistent (execute st db)"
proof (cases st)
  case (Insert t s)
  assume c: "consistent db"
  show ?thesis
  proof (cases "insert_request t s db")
    case (Inl p)
    obtain e db' where p: "p = (e, db')" by (cases p)
    from consistent_rejected[OF c Inl[unfolded p]] Insert Inl p show ?thesis by simp
  next
    case (Inr db')
    from consistent_insert[OF c Inr] Insert Inr show ?thesis by simp
  qed
next
  case (Search w pid line)
  assume "consistent db"
  then show ?thesis using Search by (simp add: consistent_search)
next
  case (Validate w s)
  assume "consistent db"
  then show ?thesis using Validate consistent_validate[of db w s]
    by (auto split: sum.splits)
next
  case (Group_up w pid s)
  assume "consistent db"
  then show ?thesis using Group_up consistent_group_up[of db w pid s]
    by (auto split: sum.splits)
next
  case (Settle w pid ok)
  assume "consistent db"
  then show ?thesis using Settle consistent_settle[of db w pid ok]
    by (auto split: option.splits)
next
  case (Commit w)
  assume "consistent db"
  then show ?thesis using Commit by (simp add: consistent_commit)
next
  case (Rollback w)
  assume "consistent db"
  then show ?thesis using Rollback by (simp add: consistent_rollback)
qed

lemma consistent_run: "consistent db \<Longrightarrow> consistent (run sts db)"
  by (induction sts arbitrary: db) (auto simp: consistent_execute)

lemma holders_le_1:
  assumes "consistent db" shows "length (holders db i) \<le> 1"
proof -
  have "set (map fst (filter (\<lambda>(w, j). j = i) (locks db))) \<subseteq> {w. (w, i) \<in> set (locks db)}"
    by auto
  moreover have "\<And>w1 w2. (w1, i) \<in> set (locks db) \<Longrightarrow> (w2, i) \<in> set (locks db) \<Longrightarrow> w1 = w2"
    using assms unfolding consistent_def by fastforce
  ultimately have "card (set (map fst (filter (\<lambda>(w, j). j = i) (locks db)))) \<le> 1"
    by (metis (no_types, lifting) card_le_Suc0_iff_eq List.finite_set One_nat_def mem_Collect_eq subsetD)
  then show ?thesis by (simp add: holders_def length_remdups_card_conv)
qed

section \<open>Searching under contention, and what a commit publishes\<close>

lemma search_Some_row:
  assumes "search w pid line db = (Some (i, t, s), db1)"
  obtains r where "first_row (filter (eligible w line db) (view w db)) = Some r"
    "r \<in> set (view w db)" "eligible w line db r"
    "i = request_queue_id r" "t = request_type r" "s = spreadsheet_id r"
    "db1 = update_rows w (claim pid)
             (filter (\<lambda>x. request_queue_id x = i) (view w db)) db"
proof -
  from assms obtain r where r: "first_row (filter (eligible w line db) (view w db)) = Some r"
    and e: "i = request_queue_id r" "t = request_type r" "s = spreadsheet_id r"
    "db1 = update_rows w (claim pid)
             (filter (\<lambda>x. request_queue_id x = request_queue_id r) (view w db)) db"
    by (auto simp: search_def split: option.splits)
  from first_row_eligible[OF r] r e that show ?thesis by auto
qed

lemma search_locks:
  assumes "search w pid line db = (Some (i, t, s), db1)"
  shows "set (locks db1) = insert (w, i) (set (locks db))"
proof -
  from assms obtain r where r: "r \<in> set (view w db)" "i = request_queue_id r"
    and db1: "db1 = update_rows w (claim pid)
             (filter (\<lambda>x. request_queue_id x = i) (view w db)) db"
    by (rule search_Some_row)
  show ?thesis unfolding db1 set_locks_update_rows using r by auto
qed

lemma search_view_other:
  assumes "search w pid line db = (found, db1)" "w' \<noteq> w"
  shows "view w' db1 = view w' db"
  using assms by (auto simp: search_def view_update_other split: option.splits)

text \<open>The other process passes over the row and takes the next candidate.\<close>

lemma search_after_search:
  assumes s: "search w1 pid1 line1 db = (Some (i, t, s), db1)" and ne: "w2 \<noteq> w1"
  shows "fst (search w2 pid2 line2 db1) =
           map_option (\<lambda>r. (request_queue_id r, request_type r, spreadsheet_id r))
             (first_row (filter (\<lambda>r. eligible w2 line2 db r \<and> request_queue_id r \<noteq> i)
                (view w2 db)))"
proof -
  have v: "view w2 db1 = view w2 db" by (rule search_view_other[OF s ne])
  have "\<And>r. eligible w2 line2 db1 r \<longleftrightarrow> eligible w2 line2 db r \<and> request_queue_id r \<noteq> i"
    using ne by (auto simp: eligible_def locked_by_other_iff search_locks[OF s])
  then have "eligible w2 line2 db1 = (\<lambda>r. eligible w2 line2 db r \<and> request_queue_id r \<noteq> i)"
    by (intro ext) simp
  then show ?thesis by (simp add: search_def v split: option.splits)
qed

lemma single_holder:
  assumes c: "consistent db" and l: "(w, i) \<in> set (locks db)"
  shows "holders db i = [w]"
proof -
  have "\<And>w'. w' \<in> set (holders db i) \<longleftrightarrow> (w', i) \<in> set (locks db)"
    by (force simp: holders_def)
  then have s: "set (holders db i) = {w}"
    using l consistent_excl[OF c _ l] by blast
  have d: "distinct (holders db i)" by (simp add: holders_def)
  show ?thesis
  proof (cases "holders db i")
    case Nil
    with s show ?thesis by simp
  next
    case (Cons a xs)
    with s d have "a = w" "set xs \<subseteq> {w}" "w \<notin> set xs" by auto
    then have "xs = []" by (cases xs) auto
    with Cons \<open>a = w\<close> show ?thesis by simp
  qed
qed

lemma search_never_settled:
  assumes c: "consistent db"
    and st: "\<forall>r \<in> set (table db). request_queue_id r = i \<longrightarrow> request_status r \<noteq> New"
  shows "fst (search w pid line db) \<noteq> Some (i, t, s)"
proof
  assume a: "fst (search w pid line db) = Some (i, t, s)"
  have "search w pid line db = (Some (i, t, s), snd (search w pid line db))"
    using a by (metis prod.collapse)
  then obtain r where r: "r \<in> set (view w db)" "eligible w line db r" "i = request_queue_id r"
    by (rule search_Some_row)
  from view_row[OF r(1)] obtain t' where t': "t' \<in> set (table db)"
    "request_queue_id t' = request_queue_id r" "r = t' \<or> (w, r) \<in> set (writes db)" by auto
  from t'(3) show False
  proof
    assume "r = t'"
    with t'(1) r(3) st have "request_status r \<noteq> New" by blast
    with r(2) show False by (simp add: eligible_def)
  next
    assume "(w, r) \<in> set (writes db)"
    from consistent_write_status[OF c this] r(2) show False by (simp add: eligible_def)
  qed
qed


text \<open>Rows a process has written stay written until it commits or rolls back.\<close>

lemma pending_update_rows_keeps:
  "pending w db i \<noteq> None \<Longrightarrow> pending w (update_rows w' f rs db) i \<noteq> None"
  by (auto simp: pending_update_rows split: option.splits)

lemma pending_lock_rows [simp]: "pending w (lock_rows w' rs db) i = pending w db i"
  by (simp add: pending_def)

lemma validate_keeps:
  "validate w s db = Inr (found, db') \<Longrightarrow> pending w' db i \<noteq> None \<Longrightarrow> pending w' db' i \<noteq> None"
  by (auto simp: validate_def Let_def split: if_splits)

lemma group_up_keeps:
  assumes "group_up w pid s db = Inr db'" "pending w' db i \<noteq> None"
  shows "pending w' db' i \<noteq> None"
proof -
  from assms(1) obtain rs where "db' = update_rows w (allocate pid) rs db"
    by (auto simp: group_up_def Let_def split: if_splits)
  then show ?thesis using pending_update_rows_keeps[OF assms(2)] by simp
qed

lemma settle_keeps:
  assumes "settle w pid ok db = Some db'" "pending w' db i \<noteq> None"
  shows "pending w' db' i \<noteq> None"
proof -
  from assms(1) obtain rs where "db' = update_rows w (settled ok) rs db"
    by (auto simp: settle_def Let_def split: if_splits)
  then show ?thesis using pending_update_rows_keeps[OF assms(2)] by simp
qed

lemma search_pending:
  assumes "search w pid line db = (Some (i, t, s), db1)"
  shows "pending w db1 i \<noteq> None"
proof -
  from assms obtain r where r: "r \<in> set (view w db)" "i = request_queue_id r"
    and db1: "db1 = update_rows w (claim pid)
             (filter (\<lambda>x. request_queue_id x = i) (view w db)) db"
    by (rule search_Some_row)
  have "find (\<lambda>x. request_queue_id (claim pid x) = i)
          (filter (\<lambda>x. request_queue_id x = i) (view w db)) \<noteq> None"
    using r by (auto simp: find_None_iff)
  then show ?thesis unfolding db1 by (auto simp: pending_update_rows split: option.splits)
qed

lemma commit_written:
  assumes c: "consistent db" and p: "pending w db i \<noteq> None"
  shows "\<forall>r \<in> set (table (commit w db)). request_queue_id r = i \<longrightarrow> request_status r \<noteq> New"
proof (intro ballI impI)
  fix r assume "r \<in> set (table (commit w db))" and i: "request_queue_id r = i"
  then have "r \<in> set (view w db)" by simp
  from view_row[OF this] i p have "(w, r) \<in> set (writes db)" by auto
  from consistent_write_status[OF c this] show "request_status r \<noteq> New" .
qed

lemma finish_written:
  assumes c: "consistent db" and p: "pending w db i \<noteq> None"
    and f: "finish w pid ok j db = Some (out, db')"
  shows "consistent db' \<and> (\<forall>r \<in> set (table db'). request_queue_id r = i \<longrightarrow> request_status r \<noteq> New)"
proof -
  from f obtain db2 where s: "settle w pid ok db = Some db2" and db': "db' = commit w db2"
    by (auto simp: finish_def split: option.splits)
  from consistent_settle[OF c s] have c2: "consistent db2" .
  from settle_keeps[OF s p] have p2: "pending w db2 i \<noteq> None" .
  from commit_written[OF c2 p2] consistent_commit[OF c2] db' show ?thesis by simp
qed

lemma attempt_Processed:
  assumes c: "consistent db" and a: "attempt w pid work goes_on line db = Some (Processed i, db')"
  shows "consistent db' \<and> (\<forall>r \<in> set (table db'). request_queue_id r = i \<longrightarrow> request_status r \<noteq> New)"
proof (cases "search w pid line db")
  case (Pair found db1)
  with a obtain j t s where fd: "found = Some (j, t, s)"
    by (cases found) (auto simp: attempt_def)
  note s = Pair[unfolded fd]
  have c1: "consistent db1" using consistent_search[OF c, of w pid line] s by simp
  have p1: "pending w db1 j \<noteq> None" by (rule search_pending[OF s])
  show ?thesis
  proof (cases t)
    case Create
    with a s have f: "finish w pid (work Create s) j db1 = Some (Processed i, db')"
      by (simp add: attempt_def)
    from finish_ids[OF f] have "i = j" by simp
    with finish_written[OF c1 p1 f] show ?thesis by simp
  next
    case Update
    from a s Update obtain found' db2 db3 where v: "validate w s db1 = Inr (found', db2)"
      and g: "group_up w pid s db2 = Inr db3"
      and f: "finish w pid (work Update s) j db3 = Some (Processed i, db')"
      by (auto simp: attempt_def split: sum.splits if_splits)
    have c3: "consistent db3"
      using consistent_group_up[OF consistent_validate[OF c1 v] g] .
    have p3: "pending w db3 j \<noteq> None"
      using group_up_keeps[OF g validate_keeps[OF v p1]] .
    from finish_ids[OF f] have "i = j" by simp
    with finish_written[OF c3 p3 f] show ?thesis by simp
  qed
qed

section \<open>Rows held by an open transaction\<close>

lemma search_keeps_table_locks:
  "table (snd (search w pid line db)) = table db
   \<and> set (locks db) \<subseteq> set (locks (snd (search w pid line db)))"
  by (auto simp: search_def split: option.splits)

lemma validate_keeps_table_locks:
  "validate w s db = Inr (found, db') \<Longrightarrow> table db' = table db \<and> set (locks db) \<subseteq> set (locks db')"
  by (auto simp: validate_def Let_def set_locks_lock_rows split: if_splits)

lemma group_up_keeps_table_locks:
  "group_up w pid s db = Inr db' \<Longrightarrow> table db' = table db \<and> set (locks db) \<subseteq> set (locks db')"
  by (auto simp: group_up_def Let_def split: if_splits)

lemma settle_keeps_table_locks:
  "settle w pid ok db = Some db' \<Longrightarrow> table db' = table db \<and> set (locks db) \<subseteq> set (locks db')"
  by (auto simp: settle_def Let_def split: if_splits)

lemma view_unwritten_rows:
  assumes "pending w db i = None"
  shows "filter (\<lambda>r. request_queue_id r = i) (view w db)
           = filter (\<lambda>r. request_queue_id r = i) (table db)"
proof -
  have "\<And>xs. filter (\<lambda>r. request_queue_id r = i)
            (map (\<lambda>r. case pending w db (request_queue_id r) of None \<Rightarrow> r | Some r' \<Rightarrow> r') xs)
          = filter (\<lambda>r. request_queue_id r = i) xs"
  proof -
    fix xs show "filter (\<lambda>r. request_queue_id r = i)
            (map (\<lambda>r. case pending w db (request_queue_id r) of None \<Rightarrow> r | Some r' \<Rightarrow> r') xs)
          = filter (\<lambda>r. request_queue_id r = i) xs"
    proof (induction xs)
      case Nil
      show ?case by simp
    next
      case (Cons a xs)
      show ?case
      proof (cases "request_queue_id a = i")
        case True
        with assms Cons show ?thesis by simp
      next
        case False
        with Cons overlay_id[where w=w and db=db and r=a] show ?thesis by simp
      qed
    qed
  qed
  then show ?thesis by (simp add: view_def)
qed

lemma not_pending_when_held:
  assumes c: "consistent db" and l: "(w, i) \<in> set (locks db)" and ne: "w' \<noteq> w"
  shows "pending w' db i = None"
proof (cases "pending w' db i")
  case None
  then show ?thesis .
next
  case (Some r)
  from pending_Some[OF Some] have "(w', r) \<in> set (writes db)" "request_queue_id r = i" by auto
  with consistent_write_locked[OF c, of w' r] have "(w', i) \<in> set (locks db)" by simp
  from consistent_excl[OF c this l] ne show ?thesis by simp
qed

text \<open>
  While process \<open>w\<close> holds the lock on row \<open>i\<close> and neither commits nor rolls back, no
  statement of any process changes the committed row or takes the lock away.
\<close>

lemma held_row_execute:
  assumes c: "consistent db" and l: "(w, i) \<in> set (locks db)"
    and k: "i \<in> request_queue_id ` set (table db)"
    and st: "st \<noteq> Commit w" "st \<noteq> Rollback w"
  shows "(w, i) \<in> set (locks (execute st db))
         \<and> filter (\<lambda>r. request_queue_id r = i) (table (execute st db))
             = filter (\<lambda>r. request_queue_id r = i) (table db)"
proof (cases st)
  case (Insert t s)
  show ?thesis
  proof (cases "insert_request t s db")
    case (Inl p)
    obtain e db' where p: "p = (e, db')" by (cases p)
    from insert_request_Inl[OF Inl[unfolded p]] Insert Inl p l show ?thesis by simp
  next
    case (Inr db')
    note e = insert_request_Inr[OF Inr]
    from k consistent_seq[OF c] have "i \<le> id_seq db" by auto
    then have "Suc (id_seq db) \<noteq> i" by simp
    with Insert Inr e l show ?thesis by simp
  qed
next
  case (Search w' pid line)
  with l search_keeps_table_locks[of w' pid line db] show ?thesis by auto
next
  case (Validate w' s)
  show ?thesis
  proof (cases "validate w' s db")
    case (Inl e)
    with Validate l show ?thesis by simp
  next
    case (Inr p)
    obtain found db' where p: "p = (found, db')" by (cases p)
    from validate_keeps_table_locks[OF Inr[unfolded p]] Validate Inr p l show ?thesis by auto
  qed
next
  case (Group_up w' pid s)
  show ?thesis
  proof (cases "group_up w' pid s db")
    case (Inl e)
    with Group_up l show ?thesis by simp
  next
    case (Inr db')
    from group_up_keeps_table_locks[OF Inr] Group_up Inr l show ?thesis by auto
  qed
next
  case (Settle w' pid ok)
  show ?thesis
  proof (cases "settle w' pid ok db")
    case None
    with Settle l show ?thesis by simp
  next
    case (Some db')
    from settle_keeps_table_locks[OF Some] Settle Some l show ?thesis by auto
  qed
next
  case (Commit w')
  with st have ne: "w' \<noteq> w" by simp
  from view_unwritten_rows[OF not_pending_when_held[OF c l ne]] Commit l ne
  show ?thesis by (simp add: commit_def set_locks_release)
next
  case (Rollback w')
  with st have ne: "w' \<noteq> w" by simp
  with Rollback l show ?thesis by (simp add: rollback_def set_locks_release)
qed

lemma table_keys_execute:
  "request_queue_id ` set (table db) \<subseteq> request_queue_id ` set (table (execute st db))"
proof (cases st)
  case (Insert t s)
  then show ?thesis by (auto split: sum.splits dest!: insert_request_Inr insert_request_Inl)
next
  case (Search w pid line)
  then show ?thesis using search_keeps_table_locks[of w pid line db] by simp
next
  case (Validate w s)
  then show ?thesis by (auto split: sum.splits dest!: validate_table)
next
  case (Group_up w pid s)
  then show ?thesis by (auto split: sum.splits dest!: group_up_table)
next
  case (Settle w pid ok)
  then show ?thesis by (auto split: option.splits dest!: settle_table)
next
  case (Commit w)
  have "request_queue_id ` set (view w db) = request_queue_id ` set (table db)"
    by (metis view_ids set_map)
  with Commit show ?thesis by simp
next
  case (Rollback w)
  then show ?thesis by simp
qed

lemma held_row_run:
  assumes "consistent db" "(w, i) \<in> set (locks db)" "i \<in> request_queue_id ` set (table db)"
    "Commit w \<notin> set sts" "Rollback w \<notin> set sts"
  shows "consistent (run sts db) \<and> (w, i) \<in> set (locks (run sts db))
         \<and> filter (\<lambda>r. request_queue_id r = i) (table (run sts db))
             = filter (\<lambda>r. request_queue_id r = i) (table db)"
  using assms
proof (induction sts arbitrary: db)
  case Nil
  then show ?case by simp
next
  case (Cons st sts)
  from Cons.prems have st: "st \<noteq> Commit w" "st \<noteq> Rollback w" by auto
  from held_row_execute[OF Cons.prems(1,2,3) st]
  have l: "(w, i) \<in> set (locks (execute st db))"
    and f: "filter (\<lambda>r. request_queue_id r = i) (table (execute st db))
             = filter (\<lambda>r. request_queue_id r = i) (table db)" by auto
  have c: "consistent (execute st db)" by (rule consistent_execute[OF Cons.prems(1)])
  have k: "i \<in> request_queue_id ` set (table (execute st db))"
    using Cons.prems(3) table_keys_execute[of db st] by auto
  from Cons.IH[OF c l k] Cons.prems(4,5) f show ?case by simp
qed

lemma holders_iff: "w \<in> set (holders db i) \<longleftrightarrow> (w, i) \<in> set (locks db)"
  by (force simp: holders_def)

lemma view_new_row:
  assumes c: "consistent db" and r: "r \<in> set (view w db)" "request_status r = New"
  shows "r \<in> set (table db)"
proof -
  from view_row[OF r(1)] obtain t0 where t0: "t0 \<in> set (table db)"
    "r = t0 \<or> (w, r) \<in> set (writes db)" by auto
  from t0(2) show ?thesis
  proof
    assume "r = t0" with t0(1) show ?thesis by simp
  next
    assume "(w, r) \<in> set (writes db)"
    from consistent_write_status[OF c this] r(2) show ?thesis by simp
  qed
qed

lemma crash_releases_row:
  assumes c1: "consistent db1" and l1: "(w, request_queue_id r) \<in> set (locks db1)"
    and r: "r \<in> set (table db1)" "request_status r = New"
    and op: "Commit w \<notin> set sts" "Rollback w \<notin> set sts"
  defines "db3 \<equiv> rollback w (run sts db1)"
  shows "filter (\<lambda>x. request_queue_id x = request_queue_id r) (table db3) = [r]
       \<and> holders db3 (request_queue_id r) = []
       \<and> (\<forall>(w', x) \<in> set (writes db3). w' \<noteq> w)
       \<and> (\<forall>w' line'. line' < request_queue_id r \<longrightarrow>
             r \<in> set (view w' db3) \<and> eligible w' line' db3 r)"
proof -
  let ?i = "request_queue_id r"
  have k1: "?i \<in> request_queue_id ` set (table db1)" using r(1) by (rule imageI)
  let ?db2 = "run sts db1"
  from held_row_run[OF c1 l1 k1 op]
  have c2: "consistent ?db2" and l2: "(w, ?i) \<in> set (locks ?db2)"
    and f2: "filter (\<lambda>x. request_queue_id x = ?i) (table ?db2)
             = filter (\<lambda>x. request_queue_id x = ?i) (table db1)" by auto
  have c3: "consistent db3" unfolding db3_def by (rule consistent_rollback[OF c2])
  have only: "filter (\<lambda>x. request_queue_id x = ?i) (table db1) = [r]"
    by (rule filter_key_single[OF consistent_keys[OF c1] r(1)])
  have f3: "filter (\<lambda>x. request_queue_id x = ?i) (table db3) = [r]"
    unfolding db3_def using f2 only by simp
  have rin: "r \<in> set (table db3)"
  proof -
    have "r \<in> set (filter (\<lambda>x. request_queue_id x = ?i) (table db3))" unfolding f3 by simp
    then show ?thesis by simp
  qed
  have nolock: "\<And>w'. (w', ?i) \<notin> set (locks db3)"
  proof
    fix w' assume a: "(w', ?i) \<in> set (locks db3)"
    then have "(w', ?i) \<in> set (locks ?db2)" "w' \<noteq> w"
      by (auto simp: db3_def rollback_def set_locks_release)
    with consistent_excl[OF c2 _ l2] show False by blast
  qed
  have h: "holders db3 ?i = []"
  proof (cases "holders db3 ?i")
    case Nil
    then show ?thesis .
  next
    case (Cons a xs)
    then have "a \<in> set (holders db3 ?i)" by simp
    with nolock show ?thesis by (simp add: holders_iff)
  qed
  have nw: "\<forall>(w', x) \<in> set (writes db3). w' \<noteq> w"
    by (auto simp: db3_def rollback_def set_writes_release)
  have el: "r \<in> set (view w' db3) \<and> eligible w' line' db3 r" if "line' < ?i" for w' line'
  proof -
    have "pending w' db3 ?i = None"
    proof (cases "pending w' db3 ?i")
      case None
      then show ?thesis .
    next
      case (Some x)
      from pending_Some[OF Some] consistent_write_locked[OF c3, of w' x] nolock
      show ?thesis by auto
    qed
    then have "r \<in> set (view w' db3)" using rin by (force simp: view_def)
    moreover have "eligible w' line' db3 r"
      using r(2) that nolock by (auto simp: eligible_def locked_by_other_iff)
    ultimately show ?thesis by simp
  qed
  from f3 h nw el show ?thesis by blast
qed

section \<open>The \<open>create\<close> request of a spreadsheet stays in the table\<close>

lemma has_create_iff:
  "has_create s db \<longleftrightarrow>
     (\<exists>r \<in> set (table db). spreadsheet_id r = s \<and> request_type r = Create)"
  by (simp add: has_create_def list_ex_iff)

lemma has_create_execute:
  assumes c: "consistent db" and h: "has_create s db"
  shows "has_create s (execute st db)"
proof (cases st)
  case (Insert t s')
  with h show ?thesis
    by (auto simp: has_create_iff split: sum.splits dest!: insert_request_Inr insert_request_Inl)
next
  case (Search w pid line)
  with h search_keeps_table_locks[of w pid line db] show ?thesis by (simp add: has_create_iff)
next
  case (Validate w s')
  with h show ?thesis by (auto simp: has_create_iff split: sum.splits dest!: validate_table)
next
  case (Group_up w pid s')
  with h show ?thesis by (auto simp: has_create_iff split: sum.splits dest!: group_up_table)
next
  case (Settle w pid ok)
  with h show ?thesis by (auto simp: has_create_iff split: option.splits dest!: settle_table)
next
  case (Commit w)
  from h obtain t where t: "t \<in> set (table db)" "spreadsheet_id t = s" "request_type t = Create"
    by (auto simp: has_create_iff)
  from view_covers[OF c t(1), of w] t(2,3) Commit show ?thesis
    by (auto simp: has_create_iff)
next
  case (Rollback w)
  with h show ?thesis by (simp add: has_create_iff)
qed

lemma has_create_run:
  "consistent db \<Longrightarrow> has_create s db \<Longrightarrow> has_create s (run sts db)"
proof (induction sts arbitrary: db)
  case Nil
  then show ?case by simp
next
  case (Cons st sts)
  from Cons.IH[OF consistent_execute[OF Cons.prems(1)] has_create_execute[OF Cons.prems]]
  show ?case by simp
qed

section \<open>Rolling back a claim; grouping\<close>


lemma release_update_rows: "release w (update_rows w f rs db) = release w db"
  by (simp add: release_def update_rows_def lock_rows_def)





lemma group_up_cases:
  "group_up w pid s db =
     (if \<exists>r \<in> set (view w db). update_outstanding s r \<and> locked_by_other w db (request_queue_id r)
      then Inl Lock_not_available
      else Inr (update_rows w (allocate pid) (filter (update_outstanding s) (view w db)) db))"
  by (auto simp: group_up_def Let_def list_ex_iff)

lemma allocate_id [simp]: "request_queue_id (allocate pid r) = request_queue_id r"
  by (simp add: allocate_def)



section \<open>Notifications sent to a connection that does not listen\<close>

lemma lost_notifications:
  "fold issue (replicate m (Notify ch)) connected = connected"
  by (induction m) (simp_all add: connected_def del: fold_replicate)

section \<open>What a process sees during a pass\<close>

lemma changes_maps:
  "changes (map g xs) (map h xs) =
     filter (\<lambda>(a, b). a \<noteq> b)
       (map (\<lambda>x. (request_status (g x), request_status (h x))) xs)"
  by (induction xs) (simp_all add: changes_def)




lemma changes_same [simp]: "changes xs xs = []"
  using changes_maps[of "\<lambda>x. x" xs "\<lambda>x. x"] by (simp add: filter_empty_conv)


lemma view_lock_rows [simp]: "view w' (lock_rows w rs db) = view w' db"
  by (simp add: view_def)




lemma settled_id [simp]: "request_queue_id (settled ok r) = request_queue_id r"
  by (simp add: settled_def)



lemma statement_view_other:
  "w' \<noteq> w \<Longrightarrow> group_up w pid s db = Inr db' \<Longrightarrow> view w' db' = view w' db"
  "w' \<noteq> w \<Longrightarrow> settle w pid ok db = Some db'' \<Longrightarrow> view w' db'' = view w' db"
  by (auto simp: group_up_def settle_def Let_def view_update_other split: if_splits)




lemma settle_release: "settle w pid ok db = Some db' \<Longrightarrow> release w db' = release w db"
  by (auto simp: settle_def Let_def release_update_rows split: if_splits)


section \<open>The stages of a pass that begins with nothing held\<close>




section \<open>The outcome of a pass\<close>





section \<open>The status changes of each stage\<close>






section \<open>The validating statement after the search\<close>



section \<open>The claim scan\<close>

text \<open>
  C6. For every line-in-the-sand value, one execution of the searched update selects the
  request with the least \<open>request_queue_id\<close> among the rows that are in \<open>new\<close> status,
  lie beyond the line and are not locked to another process. It writes a version of that
  row with the status \<open>in-progress\<close> and the process identifier, which the process sees
  in place of the row and no other process sees; it locks the row and returns its key,
  type and spreadsheet. Rows locked to other processes are passed over, and when no row
  qualifies nothing is returned and nothing changes. Keys are unique (the primary key).
\<close>

theorem search_first_eligible:
  assumes "distinct (map request_queue_id (table db))"
  shows "case search w pid line db of
           (None, db') \<Rightarrow>
             db' = db
             \<and> (\<forall>r \<in> set (view w db).
                   \<not> (request_status r = New \<and> line < request_queue_id r
                      \<and> (\<forall>(w', j) \<in> set (locks db). j = request_queue_id r \<longrightarrow> w' = w)))
         | (Some (i, t, s), db') \<Rightarrow>
             (\<exists>r \<in> set (view w db).
                request_status r = New \<and> line < request_queue_id r
                \<and> (\<forall>(w', j) \<in> set (locks db). j = request_queue_id r \<longrightarrow> w' = w)
                \<and> i = request_queue_id r \<and> t = request_type r \<and> s = spreadsheet_id r
                \<and> db' = db\<lparr>locks := (w, i) # locks db,
                            writes := (w, r\<lparr>process_id := Some pid, request_status := InProgress\<rparr>)
                                        # writes db\<rparr>)
             \<and> (\<forall>x \<in> set (view w db).
                   request_status x = New \<and> line < request_queue_id x
                   \<and> (\<forall>(w', j) \<in> set (locks db). j = request_queue_id x \<longrightarrow> w' = w)
                   \<longrightarrow> i \<le> request_queue_id x)
             \<and> view w db' =
                 map (\<lambda>x. if request_queue_id x = i
                           then x\<lparr>process_id := Some pid, request_status := InProgress\<rparr> else x)
                   (view w db)
             \<and> (\<forall>w'. w' \<noteq> w \<longrightarrow> view w' db' = view w' db)"
proof -
  have el: "eligible w line db r \<longleftrightarrow>
              request_status r = New \<and> line < request_queue_id r
              \<and> (\<forall>(w', j) \<in> set (locks db). j = request_queue_id r \<longrightarrow> w' = w)" for r
    by (auto simp: eligible_def locked_by_other_iff)
  show ?thesis
  proof (cases "first_row (filter (eligible w line db) (view w db))")
    case None
    then have "filter (eligible w line db) (view w db) = []" by (simp add: first_row_None)
    then have n: "\<forall>r \<in> set (view w db). \<not> eligible w line db r"
      by (simp add: filter_empty_conv)
    have s: "search w pid line db = (None, db)" using None by (simp add: search_def)
    show ?thesis unfolding s using n[unfolded el] by simp
  next
    case (Some r)
    from first_row_Some[OF Some] have r: "r \<in> set (view w db)" "eligible w line db r"
      and m: "\<forall>x \<in> set (view w db). eligible w line db x
                 \<longrightarrow> request_queue_id r \<le> request_queue_id x"
      by auto
    have dv: "distinct (map request_queue_id (view w db))" using assms by (simp add: view_ids)
    have f: "filter (\<lambda>x. request_queue_id x = request_queue_id r) (view w db) = [r]"
      by (rule filter_key_single[OF dv r(1)])
    let ?db' = "update_rows w (claim pid) [r] db"
    have s: "search w pid line db
               = (Some (request_queue_id r, request_type r, spreadsheet_id r), ?db')"
      using Some f by (simp add: search_def)
    have d: "?db' = db\<lparr>locks := (w, request_queue_id r) # locks db,
                        writes := (w, r\<lparr>process_id := Some pid, request_status := InProgress\<rparr>)
                                    # writes db\<rparr>"
      by (simp add: update_rows_def lock_rows_def claim_def)
    have v: "view w ?db' =
               map (\<lambda>x. if request_queue_id x = request_queue_id r
                         then x\<lparr>process_id := Some pid, request_status := InProgress\<rparr> else x)
                 (view w db)"
      using view_search[OF assms r(1), of pid] by (simp add: claim_def)
    have o: "\<forall>w'. w' \<noteq> w \<longrightarrow> view w' ?db' = view w' db"
      by (simp add: view_update_other)
    have a: "\<exists>x \<in> set (view w db).
                request_status x = New \<and> line < request_queue_id x
                \<and> (\<forall>(w', j) \<in> set (locks db). j = request_queue_id x \<longrightarrow> w' = w)
                \<and> request_queue_id r = request_queue_id x \<and> request_type r = request_type x
                \<and> spreadsheet_id r = spreadsheet_id x
                \<and> ?db' = db\<lparr>locks := (w, request_queue_id r) # locks db,
                            writes := (w, x\<lparr>process_id := Some pid, request_status := InProgress\<rparr>)
                                        # writes db\<rparr>"
      using r d unfolding el by blast
    show ?thesis unfolding s using a m[unfolded el] v o by simp
  qed
qed

theorem search_first_eligible_witness:
  "distinct (map request_queue_id (table contended_queue))
   \<and> contended_queue =
       \<lparr>table = [row 1 New Create None ''A'', row 2 New Update None ''A'',
                 row 3 New Create None ''B''],
        writes = [(2, row 1 InProgress Create (Some ''q'') ''A'')],
        locks = [(2, 1)], id_seq = 3\<rparr>
   \<and> search 1 ''p'' 0 contended_queue =
       (Some (2, Update, ''A''),
        \<lparr>table = [row 1 New Create None ''A'', row 2 New Update None ''A'',
                  row 3 New Create None ''B''],
         writes = [(1, row 2 InProgress Update (Some ''p'') ''A''),
                   (2, row 1 InProgress Create (Some ''q'') ''A'')],
         locks = [(1, 2), (2, 1)], id_seq = 3\<rparr>)
   \<and> view 1 (snd (search 1 ''p'' 0 contended_queue)) =
       [row 1 New Create None ''A'', row 2 InProgress Update (Some ''p'') ''A'',
        row 3 New Create None ''B'']
   \<and> view 2 (snd (search 1 ''p'' 0 contended_queue)) =
       [row 1 InProgress Create (Some ''q'') ''A'', row 2 New Update None ''A'',
        row 3 New Create None ''B'']
   \<and> search 1 ''p'' 3 contended_queue = (None, contended_queue)"
proof -
  have e: "contended_queue =
       \<lparr>table = [row 1 New Create None ''A'', row 2 New Update None ''A'',
                 row 3 New Create None ''B''],
        writes = [(2, row 1 InProgress Create (Some ''q'') ''A'')],
        locks = [(2, 1)], id_seq = 3\<rparr>"
    by (simp add: contended_queue_eq row_def)
  have h: "distinct (map request_queue_id (table contended_queue))"
    by (simp add: contended_queue_eq)
  have s: "search 1 ''p'' 0 contended_queue =
       (Some (2, Update, ''A''),
        \<lparr>table = [row 1 New Create None ''A'', row 2 New Update None ''A'',
                  row 3 New Create None ''B''],
         writes = [(1, row 2 InProgress Update (Some ''p'') ''A''),
                   (2, row 1 InProgress Create (Some ''q'') ''A'')],
         locks = [(1, 2), (2, 1)], id_seq = 3\<rparr>)"
    unfolding e by (simp add: statement_defs)
  have n: "search 1 ''p'' 3 contended_queue = (None, contended_queue)"
    unfolding e by (simp add: statement_defs)
  have v0: "view 1 contended_queue =
       [row 1 New Create None ''A'', row 2 New Update None ''A'', row 3 New Create None ''B'']"
    and v2: "view 2 contended_queue =
       [row 1 InProgress Create (Some ''q'') ''A'', row 2 New Update None ''A'',
        row 3 New Create None ''B'']"
    unfolding e by (simp_all add: statement_defs)
  from search_first_eligible[OF h, where w=1 and pid="''p''" and line=0]
  have "view 1 (snd (search 1 ''p'' 0 contended_queue)) =
          map (\<lambda>x. if request_queue_id x = 2
                    then x\<lparr>process_id := Some ''p'', request_status := InProgress\<rparr> else x)
            (view 1 contended_queue)"
    and "view 2 (snd (search 1 ''p'' 0 contended_queue)) = view 2 contended_queue"
    unfolding s by simp_all
  then have "view 1 (snd (search 1 ''p'' 0 contended_queue)) =
       [row 1 New Create None ''A'', row 2 InProgress Update (Some ''p'') ''A'',
        row 3 New Create None ''B'']"
    and "view 2 (snd (search 1 ''p'' 0 contended_queue)) =
       [row 1 InProgress Create (Some ''q'') ''A'', row 2 New Update None ''A'',
        row 3 New Create None ''B'']"
    unfolding v0 v2 by (simp_all add: row_def)
  with h e s n show ?thesis by (simp only: simp_thms)
qed
section \<open>Validating an \<open>update\<close> request\<close>


text \<open>
  What the back-end does with a row the validating statement returns is not shown, and
  the pass depends on it: a back-end that goes on processes the \<open>update\<close> request while
  the \<open>create\<close> request is \<open>new\<close>, one that gives up skips it.
\<close>

lemma update_first_carries_on:
  "attempt 1 ''p'' succeeds carries_on 0 update_first_queue =
     Some (Processed 1,
       \<lparr>table = [row 1 Complete Update (Some ''p'') ''A'', row 2 New Create None ''A''],
        writes = [], locks = [], id_seq = 2\<rparr>)"
  by (simp add: update_first_queue_eq statement_defs succeeds_def carries_on_def)

lemma update_first_gives_up:
  "attempt 1 ''p'' succeeds gives_up 0 update_first_queue =
     Some (Skipped 1,
       \<lparr>table = [row 1 New Update None ''A'', row 2 New Create None ''A''],
        writes = [], locks = [], id_seq = 2\<rparr>)"
  by (simp add: update_first_queue_eq statement_defs succeeds_def gives_up_def)


section \<open>Settlement\<close>


section \<open>The status transitions\<close>


section \<open>Mutual exclusion\<close>

text \<open>
  C2. In every state the database reaches from the empty queue, whatever statements the
  front-end and any number of back-end processes issue and in whatever order, a row is
  locked to at most one process. When process \<open>w1\<close>'s search has claimed row \<open>i\<close>, that
  process is its only holder, and the search of another process \<open>w2\<close> returns the first
  row that was eligible for it apart from \<open>i\<close>: it passes over the row without waiting.
  Once \<open>w1\<close>'s claim of row \<open>i\<close> is committed, no search returns that row.
\<close>

theorem claims_exclusive:
  fixes sts :: "statement list"
  defines "db \<equiv> run sts empty_queue"
  shows "length (holders db k) \<le> 1
    \<and> (w2 \<noteq> w1 \<and> search w1 pid1 line1 db = (Some (i, t, s), db1) \<longrightarrow>
         holders db1 i = [w1]
         \<and> fst (search w2 pid2 line2 db1) =
             map_option (\<lambda>r. (request_queue_id r, request_type r, spreadsheet_id r))
               (first_row (filter (\<lambda>r. eligible w2 line2 db r \<and> request_queue_id r \<noteq> i)
                  (view w2 db))))
    \<and> (attempt w1 pid1 work goes_on line1 db = Some (Processed i, db') \<longrightarrow>
         fst (search w2 pid2 line2 db') \<noteq> Some (i, t', s'))"
proof -
  have c: "consistent db" unfolding db_def by (rule consistent_run[OF consistent_empty])
  have "length (holders db k) \<le> 1" by (rule holders_le_1[OF c])
  moreover have "holders db1 i = [w1]" if s: "search w1 pid1 line1 db = (Some (i, t, s), db1)"
  proof -
    have "consistent db1" using consistent_search[OF c, of w1 pid1 line1] s by simp
    moreover have "(w1, i) \<in> set (locks db1)" by (simp add: search_locks[OF s])
    ultimately show ?thesis by (rule single_holder)
  qed
  moreover have "fst (search w2 pid2 line2 db') \<noteq> Some (i, t', s')"
    if a: "attempt w1 pid1 work goes_on line1 db = Some (Processed i, db')"
    using attempt_Processed[OF c a] search_never_settled by blast
  ultimately show ?thesis using search_after_search[of w1 pid1 line1 db i t s db1 w2 pid2 line2]
    by blast
qed


theorem claims_exclusive_witness:
  "(1::nat) \<noteq> 2
   \<and> search 2 ''q'' 0 (run [Insert Create ''A'', Insert Update ''A'', Insert Create ''B''] empty_queue)
       = (Some (1, Create, ''A''), contended_queue)
   \<and> holders contended_queue 1 = [2]
   \<and> fst (search 1 ''p'' 0 contended_queue) = Some (2, Update, ''A'')
   \<and> attempt 2 ''q'' succeeds carries_on 0
         (run [Insert Create ''A'', Insert Update ''A'', Insert Create ''B''] empty_queue)
       = Some (Processed 1, \<lparr>table = [row 1 Complete Create (Some ''q'') ''A'', row 2 New Update None ''A'',
                  row 3 New Create None ''B''],
         writes = [], locks = [], id_seq = 3\<rparr>)
   \<and> fst (search 1 ''p'' 0 (\<lparr>table = [row 1 Complete Create (Some ''q'') ''A'', row 2 New Update None ''A'',
                  row 3 New Create None ''B''],
         writes = [], locks = [], id_seq = 3\<rparr>))
       \<noteq> Some (1, Create, ''A'')"
proof -
  let ?db = "run [Insert Create ''A'', Insert Update ''A'', Insert Create ''B''] empty_queue"
  let ?db' = "\<lparr>table = [row 1 Complete Create (Some ''q'') ''A'', row 2 New Update None ''A'',
                  row 3 New Create None ''B''],
         writes = [], locks = [], id_seq = 3\<rparr>"
  have s: "search 2 ''q'' 0 ?db = (Some (1, Create, ''A''), contended_queue)"
    by (simp add: contended_queue_eq statement_defs)
  have a: "attempt 2 ''q'' succeeds carries_on 0 ?db = Some (Processed 1, ?db')"
    by (simp add: contended_queue_eq succeeds_def statement_defs)
  have n: "(2::nat) \<noteq> 1" by simp
  from claims_exclusive[where sts="[Insert Create ''A'', Insert Update ''A'', Insert Create ''B'']"
      and ?w1.0=2 and ?w2.0=1 and ?pid1.0="''q''" and ?line1.0=0 and i=1 and t=Create and s="''A''"
      and ?db1.0=contended_queue and ?pid2.0="''p''" and ?line2.0=0 and work=succeeds and goes_on=carries_on
      and db'="?db'" and t'=Create and s'="''A''"] s a
  have h: "holders contended_queue 1 = [2]"
    and f: "fst (search 1 ''p'' 0 contended_queue) =
             map_option (\<lambda>r. (request_queue_id r, request_type r, spreadsheet_id r))
               (first_row (filter (\<lambda>r. eligible 1 0 ?db r \<and> request_queue_id r \<noteq> 1)
                  (view 1 ?db)))"
    and e: "fst (search 1 ''p'' 0 ?db') \<noteq> Some (1, Create, ''A'')"
    by simp_all
  have "fst (search 1 ''p'' 0 contended_queue) = Some (2, Update, ''A'')"
    unfolding f by (simp add: statement_defs)
  with s a h e show ?thesis by simp
qed

section \<open>Crash recovery\<close>

text \<open>
  C5. Request \<open>i\<close> has reached \<open>in-progress\<close> in the open transaction of process \<open>w\<close>:
  the search has claimed it, or the grouping statement has allocated it when it was
  \<open>new\<close>. Whatever statements follow, its own and those of the front-end and of other
  processes, as long as \<open>w\<close> has neither committed nor rolled back: when \<open>w\<close> dies and
  the database manager rolls its transaction back, the committed row \<open>i\<close> is what it
  was before, in \<open>new\<close> status; nobody holds a lock on it; no uncommitted change of \<open>w\<close>
  is left; and the row is eligible for the search of every process whose
  line-in-the-sand is below \<open>i\<close>.
\<close>

theorem crash_recovery:
  fixes before sts :: "statement list"
  defines "db \<equiv> run before empty_queue"
  assumes reached:
    "search w pid line db = (Some (i, t, s), db1)
     \<or> (group_up w pid s db = Inr db1
         \<and> (\<exists>r \<in> set (view w db). request_queue_id r = i \<and> update_outstanding s r
               \<and> request_status r = New))"
    and op: "Commit w \<notin> set sts" "Rollback w \<notin> set sts"
  defines "db3 \<equiv> rollback w (run sts db1)"
  shows "filter (\<lambda>r. request_queue_id r = i) (table db3)
           = filter (\<lambda>r. request_queue_id r = i) (table db)
       \<and> (\<exists>r \<in> set (table db3). request_queue_id r = i)
       \<and> (\<forall>r \<in> set (table db3). request_queue_id r = i \<longrightarrow> request_status r = New)
       \<and> holders db3 i = []
       \<and> (\<forall>(w', r) \<in> set (writes db3). w' \<noteq> w)
       \<and> (\<forall>w' line'. line' < i \<longrightarrow>
            (\<exists>r \<in> set (view w' db3). request_queue_id r = i \<and> eligible w' line' db3 r))"
proof -
  have c: "consistent db" unfolding db_def by (rule consistent_run[OF consistent_empty])
  have "\<exists>r. r \<in> set (view w db) \<and> request_queue_id r = i \<and> request_status r = New
            \<and> consistent db1 \<and> (w, i) \<in> set (locks db1) \<and> table db1 = table db"
    using reached
  proof
    assume s: "search w pid line db = (Some (i, t, s), db1)"
    from s obtain r where r: "r \<in> set (view w db)" "eligible w line db r" "i = request_queue_id r"
      by (rule search_Some_row)
    have "consistent db1" using consistent_search[OF c, of w pid line] s by simp
    moreover have "(w, i) \<in> set (locks db1)" by (simp add: search_locks[OF s])
    moreover have "table db1 = table db" using search_Some[OF s] by simp
    ultimately show ?thesis using r by (auto simp: eligible_def)
  next
    assume g: "group_up w pid s db = Inr db1
         \<and> (\<exists>r \<in> set (view w db). request_queue_id r = i \<and> update_outstanding s r
               \<and> request_status r = New)"
    then obtain r where r: "r \<in> set (view w db)" "request_queue_id r = i"
      "update_outstanding s r" "request_status r = New" by auto
    from g have g1: "group_up w pid s db = Inr db1" by simp
    then have "db1 = update_rows w (allocate pid) (filter (update_outstanding s) (view w db)) db"
      by (simp add: group_up_cases split: if_splits)
    then have "(w, i) \<in> set (locks db1)" using r by (auto simp: set_locks_update_rows)
    moreover have "consistent db1" by (rule consistent_group_up[OF c g1])
    moreover have "table db1 = table db" by (rule group_up_table[OF g1])
    ultimately show ?thesis using r by auto
  qed
  then obtain r where r: "r \<in> set (view w db)" "request_queue_id r = i" "request_status r = New"
    and c1: "consistent db1" and l1: "(w, i) \<in> set (locks db1)" and t1: "table db1 = table db"
    by blast
  have rt: "r \<in> set (table db1)" unfolding t1 by (rule view_new_row[OF c r(1,3)])
  from crash_releases_row[OF c1 l1[folded r(2)] rt r(3) op]
  have f3: "filter (\<lambda>x. request_queue_id x = i) (table db3) = [r]"
    and h: "holders db3 i = []"
    and nw: "\<forall>(w', x) \<in> set (writes db3). w' \<noteq> w"
    and el: "\<forall>w' line'. line' < i \<longrightarrow> r \<in> set (view w' db3) \<and> eligible w' line' db3 r"
    unfolding db3_def r(2) by blast+
  have only: "filter (\<lambda>x. request_queue_id x = i) (table db) = [r]"
    using filter_key_single[OF consistent_keys[OF c1] rt] unfolding t1 r(2) .
  have rows: "\<And>x. x \<in> set (table db3) \<Longrightarrow> request_queue_id x = i \<Longrightarrow> x = r"
  proof -
    fix x assume "x \<in> set (table db3)" "request_queue_id x = i"
    then have "x \<in> set (filter (\<lambda>x. request_queue_id x = i) (table db3))" by simp
    then show "x = r" unfolding f3 by simp
  qed
  have rin: "r \<in> set (table db3)"
  proof -
    have "r \<in> set (filter (\<lambda>x. request_queue_id x = i) (table db3))" unfolding f3 by simp
    then show ?thesis by simp
  qed
  have "\<forall>x \<in> set (table db3). request_queue_id x = i \<longrightarrow> request_status x = New"
    using rows r(3) by auto
  moreover have "\<forall>w' line'. line' < i \<longrightarrow>
            (\<exists>x \<in> set (view w' db3). request_queue_id x = i \<and> eligible w' line' db3 x)"
    using el r(2) by blast
  ultimately show ?thesis using f3 only rin r(2) h nw by auto
qed


theorem crash_recovery_witness:
  "search 1 ''p'' 0 (run [Insert Create ''A'', Insert Update ''A''] empty_queue)
     = (Some (1, Create, ''A''),
        snd (search 1 ''p'' 0 (run [Insert Create ''A'', Insert Update ''A''] empty_queue)))
   \<and> Commit 1 \<notin> set [Insert Update ''B'', Search 2 ''q'' 0, Settle 1 ''p'' True]
   \<and> Rollback 1 \<notin> set [Insert Update ''B'', Search 2 ''q'' 0, Settle 1 ''p'' True]
   \<and> filter (\<lambda>r. request_queue_id r = 1)
        (table (rollback 1 (run [Insert Update ''B'', Search 2 ''q'' 0, Settle 1 ''p'' True]
           (snd (search 1 ''p'' 0 (run [Insert Create ''A'', Insert Update ''A''] empty_queue))))))
       = [row 1 New Create None ''A'']
   \<and> holders (rollback 1 (run [Insert Update ''B'', Search 2 ''q'' 0, Settle 1 ''p'' True]
           (snd (search 1 ''p'' 0 (run [Insert Create ''A'', Insert Update ''A''] empty_queue))))) 1
       = []
   \<and> (\<exists>r \<in> set (view 3 (rollback 1 (run [Insert Update ''B'', Search 2 ''q'' 0, Settle 1 ''p'' True]
           (snd (search 1 ''p'' 0 (run [Insert Create ''A'', Insert Update ''A''] empty_queue)))))).
         request_queue_id r = 1
         \<and> eligible 3 0 (rollback 1 (run [Insert Update ''B'', Search 2 ''q'' 0, Settle 1 ''p'' True]
           (snd (search 1 ''p'' 0 (run [Insert Create ''A'', Insert Update ''A''] empty_queue))))) r)
   \<and> group_up 1 ''p'' ''A''
        (run [Insert Update ''A'', Insert Update ''A'', Search 1 ''p'' 0] empty_queue)
       = Inr (run [Insert Update ''A'', Insert Update ''A'', Search 1 ''p'' 0,
                   Group_up 1 ''p'' ''A''] empty_queue)
   \<and> (\<exists>r \<in> set (view 1 (run [Insert Update ''A'', Insert Update ''A'', Search 1 ''p'' 0] empty_queue)).
         request_queue_id r = 2 \<and> update_outstanding ''A'' r \<and> request_status r = New)
   \<and> filter (\<lambda>r. request_queue_id r = 2)
        (table (rollback 1 (run [Insert Create ''B'', Search 2 ''q'' 0, Settle 1 ''p'' True]
           (run [Insert Update ''A'', Insert Update ''A'', Search 1 ''p'' 0,
                 Group_up 1 ''p'' ''A''] empty_queue))))
       = [row 2 New Update None ''A'']
   \<and> holders (rollback 1 (run [Insert Create ''B'', Search 2 ''q'' 0, Settle 1 ''p'' True]
           (run [Insert Update ''A'', Insert Update ''A'', Search 1 ''p'' 0,
                 Group_up 1 ''p'' ''A''] empty_queue))) 2
       = []"
proof -
  let ?db = "run [Insert Create ''A'', Insert Update ''A''] empty_queue"
  let ?sts = "[Insert Update ''B'', Search 2 ''q'' 0, Settle 1 ''p'' True]"
  have s: "search 1 ''p'' 0 ?db = (Some (1, Create, ''A''), snd (search 1 ''p'' 0 ?db))"
    by (simp add: statement_defs)
  have o: "Commit 1 \<notin> set ?sts" "Rollback 1 \<notin> set ?sts" by simp_all
  have t: "filter (\<lambda>r. request_queue_id r = 1) (table ?db) = [row 1 New Create None ''A'']"
    by (simp add: statement_defs)
  have a: "filter (\<lambda>r. request_queue_id r = 1) (table (rollback 1 (run ?sts (snd (search 1 ''p'' 0 ?db)))))
             = [row 1 New Create None ''A'']
           \<and> holders (rollback 1 (run ?sts (snd (search 1 ''p'' 0 ?db)))) 1 = []
           \<and> (\<exists>r \<in> set (view 3 (rollback 1 (run ?sts (snd (search 1 ''p'' 0 ?db))))).
                 request_queue_id r = 1
                 \<and> eligible 3 0 (rollback 1 (run ?sts (snd (search 1 ''p'' 0 ?db)))) r)"
    using crash_recovery[OF disjI1[OF s] o] t by simp
  let ?dg = "run [Insert Update ''A'', Insert Update ''A'', Search 1 ''p'' 0] empty_queue"
  let ?dg1 = "run [Insert Update ''A'', Insert Update ''A'', Search 1 ''p'' 0,
                   Group_up 1 ''p'' ''A''] empty_queue"
  let ?sts2 = "[Insert Create ''B'', Search 2 ''q'' 0, Settle 1 ''p'' True]"
  have g: "group_up 1 ''p'' ''A'' ?dg = Inr ?dg1"
    by (simp add: statement_defs)
  have r2: "\<exists>r \<in> set (view 1 ?dg). request_queue_id r = 2 \<and> update_outstanding ''A'' r
               \<and> request_status r = New"
    by (simp add: statement_defs)
  have o2: "Commit 1 \<notin> set ?sts2" "Rollback 1 \<notin> set ?sts2" by simp_all
  have t2: "filter (\<lambda>r. request_queue_id r = 2) (table ?dg) = [row 2 New Update None ''A'']"
    by (simp add: statement_defs)
  have b: "filter (\<lambda>r. request_queue_id r = 2) (table (rollback 1 (run ?sts2 ?dg1)))
             = [row 2 New Update None ''A'']
           \<and> holders (rollback 1 (run ?sts2 ?dg1)) 2 = []"
    using crash_recovery[OF disjI2[OF conjI[OF g r2]] o2] t2 by simp
  from s o a g r2 b show ?thesis by blast
qed

section \<open>The sparse unique index\<close>

text \<open>
  C10. Once the table holds a \<open>create\<close> request of a spreadsheet, in whatever status,
  every later insert of a \<open>create\<close> request for that spreadsheet is rejected by the unique
  index, whatever statements have been executed in between: no statement deletes a row
  or changes its type or spreadsheet, and the index has no condition on the status. The
  rejected insert adds no row; all it leaves behind is the sequence value it drew.
\<close>

theorem one_create_per_spreadsheet:
  fixes before later :: "statement list"
  defines "db \<equiv> run before empty_queue"
  assumes "r \<in> set (table db)" "request_type r = Create"
  shows "insert_request Create (spreadsheet_id r) (run later db)
           = Inl (Unique_violation, (run later db)\<lparr>id_seq := Suc (id_seq (run later db))\<rparr>)
         \<and> execute (Insert Create (spreadsheet_id r)) (run later db)
           = (run later db)\<lparr>id_seq := Suc (id_seq (run later db))\<rparr>"
proof -
  have c: "consistent db" unfolding db_def by (rule consistent_run[OF consistent_empty])
  have "has_create (spreadsheet_id r) db" using assms(2,3) by (auto simp: has_create_iff)
  from has_create_run[OF c this, of later] show ?thesis by (simp add: insert_request_def)
qed

theorem one_create_per_spreadsheet_witness:
  "row 1 Complete Create (Some ''p'') ''A''
     \<in> set (table (run [Insert Create ''A'', Search 1 ''p'' 0, Settle 1 ''p'' True, Commit 1] empty_queue))
   \<and> request_type (row 1 Complete Create (Some ''p'') ''A'') = Create
   \<and> request_status (row 1 Complete Create (Some ''p'') ''A'') = Complete
   \<and> insert_request Create ''A''
        (run [Insert Update ''A'']
          (run [Insert Create ''A'', Search 1 ''p'' 0, Settle 1 ''p'' True, Commit 1] empty_queue))
       = Inl (Unique_violation,
           \<lparr>table = [row 1 Complete Create (Some ''p'') ''A'', row 2 New Update None ''A''],
            writes = [], locks = [], id_seq = 3\<rparr>)"
proof -
  let ?r = "row 1 Complete Create (Some ''p'') ''A''"
  have a: "?r \<in> set (table (run [Insert Create ''A'', Search 1 ''p'' 0, Settle 1 ''p'' True, Commit 1] empty_queue))"
    using created_queue_eq by (simp add: created_queue_def)
  have b: "request_type ?r = Create" "request_status ?r = Complete" "spreadsheet_id ?r = ''A''"
    by (simp_all add: row_def)
  have e: "run [Insert Update ''A'']
          (run [Insert Create ''A'', Search 1 ''p'' 0, Settle 1 ''p'' True, Commit 1] empty_queue)
        = \<lparr>table = [row 1 Complete Create (Some ''p'') ''A'', row 2 New Update None ''A''],
            writes = [], locks = [], id_seq = 2\<rparr>"
    using created_queue_eq by (simp add: created_queue_def insert_request_def row_def)
  from one_create_per_spreadsheet[OF a b(1), of "[Insert Update ''A'']"] a b show ?thesis
    unfolding e by simp
qed

section \<open>Grouping is all or nothing\<close>



section \<open>Going idle\<close>


section \<open>Priming the pump\<close>

text \<open>
  C9, as stated: at start-up the self-notification is issued before the back-end
  subscribes. It is not: the \<^verbatim>\<open>NOTIFY\<close> is not issued before the \<^verbatim>\<open>LISTEN\<close>, and in that
  order the event listener would receive nothing.
\<close>

theorem self_notify_not_before_listen:
  "\<not> issued_before (Notify ''spreadsheets_request_queue'') (Listen ''spreadsheets_request_queue'')
       start_up
   \<and> notifications (fold issue [Notify ''spreadsheets_request_queue'',
                               Listen ''spreadsheets_request_queue''] connected) = 0"
  by (simp add: start_up_def connected_def)

text \<open>
  C9, amended: at start-up the back-end subscribes to the channel and then notifies
  itself. Whatever number of notifications the front-end sent while the back-end was
  not listening (all of them lost), the start-up leaves exactly one notification with
  the event listener, so the back-end starts searching for work.
\<close>

theorem listen_then_self_notify:
  "issued_before (Listen ''spreadsheets_request_queue'') (Notify ''spreadsheets_request_queue'')
     start_up
   \<and> notifications
        (fold issue (replicate m (Notify ''spreadsheets_request_queue'') @ start_up) connected) = 1"
proof -
  have "fold issue (replicate m (Notify ''spreadsheets_request_queue'') @ start_up) connected
          = fold issue start_up
              (fold issue (replicate m (Notify ''spreadsheets_request_queue'')) connected)"
    by (simp del: fold_replicate)
  also have "\<dots> = fold issue start_up connected"
    by (simp only: lost_notifications)
  finally show ?thesis by (simp add: start_up_def connected_def)
qed

end
